theory Spec2Isabelle
  imports Main
begin

section \<open>JavaScript strings\<close>

text \<open>
  A JavaScript string is a sequence of UTF-16 code units. A code unit is modelled as a
  natural number (every real code unit is below 65536; nothing below depends on that
  bound), a string as the list of its code units. \<open>js\<close> turns an ASCII literal into
  such a list, \<open>ch\<close> a single character.
\<close>

type_synonym jschar = nat
type_synonym jsstring = "jschar list"

definition ch :: "char \<Rightarrow> jschar" where
  "ch c = of_char c"

definition js :: "string \<Rightarrow> jsstring" where
  "js s = map ch s"

definition LF :: jschar where "LF = 10"
definition CR :: jschar where "CR = 13"

text \<open>The regular-expression class \<open>\s\<close> (white space and line terminators); it is also
  the set of characters that \<open>String.prototype.trim\<close> removes.\<close>

definition isSpace :: "jschar \<Rightarrow> bool" where
  "isSpace c \<longleftrightarrow>
     c = 9 \<or> c = 10 \<or> c = 11 \<or> c = 12 \<or> c = 13 \<or> c = 32 \<or> c = 0xA0 \<or> c = 0x1680 \<or>
     (0x2000 \<le> c \<and> c \<le> 0x200A) \<or> c = 0x2028 \<or> c = 0x2029 \<or> c = 0x202F \<or>
     c = 0x205F \<or> c = 0x3000 \<or> c = 0xFEFF"

text \<open>The characters that \<open>.\<close> does not match (no \<open>s\<close> flag).\<close>

definition isLineTerminator :: "jschar \<Rightarrow> bool" where
  "isLineTerminator c \<longleftrightarrow> c = 10 \<or> c = 13 \<or> c = 0x2028 \<or> c = 0x2029"

definition isDigit :: "jschar \<Rightarrow> bool" where
  "isDigit c \<longleftrightarrow> ch CHR ''0'' \<le> c \<and> c \<le> ch CHR ''9''"

text \<open>The class \<open>\w\<close>.\<close>

definition isWord :: "jschar \<Rightarrow> bool" where
  "isWord c \<longleftrightarrow>
     (ch CHR ''a'' \<le> c \<and> c \<le> ch CHR ''z'') \<or> (ch CHR ''A'' \<le> c \<and> c \<le> ch CHR ''Z'') \<or>
     isDigit c \<or> c = ch CHR ''_''"

definition trim :: "jsstring \<Rightarrow> jsstring" where
  "trim s = rev (dropWhile isSpace (rev (dropWhile isSpace s)))"

text \<open>\<open>text.split(/\r?\n/)\<close>: a line feed, or a carriage return directly followed by one,
  ends a line; a carriage return alone stays in its line.\<close>

fun splitLines :: "jsstring \<Rightarrow> jsstring list" where
  "splitLines [] = [[]]"
| "splitLines (c # cs) =
     (if c = LF then [] # splitLines cs
      else if c = CR \<and> take 1 cs = [LF] then splitLines cs
      else (case splitLines cs of l # ls \<Rightarrow> (c # l) # ls | [] \<Rightarrow> [[c]]))"

text \<open>\<open>s.split(d)\<close> for a one-character separator.\<close>

fun splitOn :: "jschar \<Rightarrow> jsstring \<Rightarrow> jsstring list" where
  "splitOn d [] = [[]]"
| "splitOn d (c # cs) =
     (if c = d then [] # splitOn d cs
      else (case splitOn d cs of l # ls \<Rightarrow> (c # l) # ls | [] \<Rightarrow> [[c]]))"

datatype error = RangeError

text \<open>\<open>s.repeat(count)\<close> throws a RangeError on a negative count.\<close>

definition repeat :: "jsstring \<Rightarrow> int \<Rightarrow> error + jsstring" where
  "repeat s count = (if count < 0 then Inl RangeError else Inr (concat (replicate (nat count) s)))"

section \<open>The line patterns of renderMarkdown\<close>

text \<open>
  Each pattern of the \<open>patterns\<close> table is a matcher that returns the capture groups the
  code reads (or a truth value where the code only tests the match).

  \<open>codeFence: /^ *(`{3,}|~{3,}) *(\w*?) *$/\<close>. Group 1 is the whole run of backticks
  (or tildes): a shorter run would leave a fence character that nothing after it matches.
  Group 2 is the run of word characters after the blanks; only blanks may follow.
\<close>

definition codeFence :: "jsstring \<Rightarrow> (jsstring \<times> jsstring) option" where
  "codeFence line =
     (let s1 = dropWhile (\<lambda>c. c = ch CHR '' '') line;
          ticks = takeWhile (\<lambda>c. c = ch CHR ''`'') s1;
          fence = (if 3 \<le> length ticks then ticks else takeWhile (\<lambda>c. c = ch CHR ''~'') s1);
          s2 = dropWhile (\<lambda>c. c = ch CHR '' '') (drop (length fence) s1);
          lang = takeWhile isWord s2;
          s3 = dropWhile (\<lambda>c. c = ch CHR '' '') (drop (length lang) s2)
      in if 3 \<le> length fence \<and> s3 = [] then Some (fence, lang) else None)"

text \<open>\<open>header: /^ *(#{1,4}) +(.*)/\<close>. The run of hashes has length 1 to 4 and a blank
  follows it (with five hashes, every shorter group 1 is followed by a hash); group 2
  runs to the first line terminator.\<close>

definition header :: "jsstring \<Rightarrow> (jsstring \<times> jsstring) option" where
  "header line =
     (let s1 = dropWhile (\<lambda>c. c = ch CHR '' '') line;
          hashes = takeWhile (\<lambda>c. c = ch CHR ''#'') s1;
          s2 = drop (length hashes) s1
      in if 1 \<le> length hashes \<and> length hashes \<le> 4 \<and> take 1 s2 = [ch CHR '' '']
         then Some (hashes, takeWhile (\<lambda>c. \<not> isLineTerminator c) (dropWhile (\<lambda>c. c = ch CHR '' '') s2))
         else None)"

text \<open>\<open>unorderedList: /^([ \t]*)([-*+]) +(.*)/\<close>: indent, marker, content.\<close>

definition unorderedList :: "jsstring \<Rightarrow> (jsstring \<times> jsstring \<times> jsstring) option" where
  "unorderedList line =
     (let indent = takeWhile (\<lambda>c. c = ch CHR '' '' \<or> c = 9) line;
          s1 = drop (length indent) line
      in case s1 of
           m # s2 \<Rightarrow>
             if (m = ch CHR ''-'' \<or> m = ch CHR ''*'' \<or> m = ch CHR ''+'') \<and> take 1 s2 = [ch CHR '' '']
             then Some (indent, [m],
                        takeWhile (\<lambda>c. \<not> isLineTerminator c) (dropWhile (\<lambda>c. c = ch CHR '' '') s2))
             else None
         | [] \<Rightarrow> None)"

text \<open>\<open>orderedList: /^([ \t]*)(\d+)\. +(.*)/\<close>: indent, number, content.\<close>

definition orderedList :: "jsstring \<Rightarrow> (jsstring \<times> jsstring \<times> jsstring) option" where
  "orderedList line =
     (let indent = takeWhile (\<lambda>c. c = ch CHR '' '' \<or> c = 9) line;
          s1 = drop (length indent) line;
          digits = takeWhile isDigit s1;
          s2 = drop (length digits) s1
      in if digits \<noteq> [] \<and> take 2 s2 = [ch CHR ''.'', ch CHR '' '']
         then Some (indent, digits,
                    takeWhile (\<lambda>c. \<not> isLineTerminator c) (dropWhile (\<lambda>c. c = ch CHR '' '') (drop 1 s2)))
         else None)"

text \<open>\<open>horizontalRule: /^ *([-*_] *){3,} *$/\<close>: the line is made of blanks and of the
  characters \<open>-\<close>, \<open>*\<close>, \<open>_\<close> only, at least three of the latter. \<open>hrScan\<close> counts
  them and fails on any other character.\<close>

fun hrScan :: "jsstring \<Rightarrow> nat option" where
  "hrScan [] = Some 0"
| "hrScan (c # cs) =
     (if c = ch CHR ''-'' \<or> c = ch CHR ''*'' \<or> c = ch CHR ''_'' then map_option Suc (hrScan cs)
      else if c = ch CHR '' '' then hrScan cs
      else None)"

definition horizontalRule :: "jsstring \<Rightarrow> bool" where
  "horizontalRule line = (case hrScan line of Some n \<Rightarrow> 3 \<le> n | None \<Rightarrow> False)"

text \<open>\<open>tableRow: /^\s*\|(.+)\|\s*$/\<close>. After the leading white space comes a pipe; the
  closing pipe is the last character that is not white space; group 1, between the two,
  is not empty and holds no line terminator (\<open>.\<close> does not match one).\<close>

definition tableRow :: "jsstring \<Rightarrow> jsstring option" where
  "tableRow line =
     (case dropWhile isSpace line of
        c # r \<Rightarrow>
          (let body = rev (dropWhile isSpace (rev r)) in
           if c = ch CHR ''|'' \<and> body \<noteq> [] \<and> last body = ch CHR ''|'' \<and> butlast body \<noteq> [] \<and>
              list_all (\<lambda>x. \<not> isLineTerminator x) (butlast body)
           then Some (butlast body) else None)
      | [] \<Rightarrow> None)"

text \<open>\<open>tableSeparator: /^\s*\|?\s*(:?-+:?)\s*(\|\s*(:?-+:?)\s*)+\|?\s*$/\<close>.
  \<open>sepCell\<close> matches one \<open>:?-+:?\<close> and returns what follows it; \<open>sepGroups\<close> matches the
  groups \<open>\|\s*(:?-+:?)\s*\<close> greedily, counting them, and stops before a pipe that no
  cell follows (which is left to the final \<open>\|?\<close>).\<close>

definition sepCell :: "jsstring \<Rightarrow> jsstring option" where
  "sepCell s =
     (let s1 = (if take 1 s = [ch CHR '':''] then drop 1 s else s);
          dashes = takeWhile (\<lambda>c. c = ch CHR ''-'') s1;
          s2 = drop (length dashes) s1
      in if dashes = [] then None
         else Some (if take 1 s2 = [ch CHR '':''] then drop 1 s2 else s2))"

function sepGroups :: "jsstring \<Rightarrow> nat \<times> jsstring" where
  "sepGroups [] = (0, [])"
| "sepGroups (c # cs) =
     (if c = ch CHR ''|'' then
        (case sepCell (dropWhile isSpace cs) of
           Some r \<Rightarrow> (case sepGroups (dropWhile isSpace r) of (n, r') \<Rightarrow> (Suc n, r'))
         | None \<Rightarrow> (0, c # cs))
      else (0, c # cs))"
  by pat_completeness auto
termination
proof (relation "measure length")
  show "wf (measure length)" by simp
next
  fix c :: jschar and cs r
  assume cell: "sepCell (dropWhile isSpace cs) = Some r"
  define s1 where "s1 = (if take 1 (dropWhile isSpace cs) = [ch CHR '':'']
                         then drop 1 (dropWhile isSpace cs) else dropWhile isSpace cs)"
  define dashes where "dashes = takeWhile (\<lambda>c. c = ch CHR ''-'') s1"
  define s2 where "s2 = drop (length dashes) s1"
  have "sepCell (dropWhile isSpace cs) =
          (if dashes = [] then None
           else Some (if take 1 s2 = [ch CHR '':''] then drop 1 s2 else s2))"
    unfolding sepCell_def Let_def s2_def dashes_def s1_def by (rule refl)
  then have "r = (if take 1 s2 = [ch CHR '':''] then drop 1 s2 else s2)"
    using cell by (cases "dashes = []") auto
  then have "length r \<le> length s2" by (cases "take 1 s2 = [ch CHR '':'']") auto
  also have "\<dots> \<le> length s1" by (simp add: s2_def)
  also have "\<dots> \<le> length (dropWhile isSpace cs)" by (simp add: s1_def)
  also have "\<dots> \<le> length cs" by (rule length_dropWhile_le)
  finally have "length (dropWhile isSpace r) \<le> length cs"
    using length_dropWhile_le [of isSpace r] by simp
  then show "(dropWhile isSpace r, c # cs) \<in> measure length" by simp
qed

definition tableSeparator :: "jsstring \<Rightarrow> bool" where
  "tableSeparator line =
     (let s0 = dropWhile isSpace line;
          s1 = dropWhile isSpace (if take 1 s0 = [ch CHR ''|''] then drop 1 s0 else s0)
      in case sepCell s1 of
           None \<Rightarrow> False
         | Some s2 \<Rightarrow>
             (case sepGroups (dropWhile isSpace s2) of
                (n, s3) \<Rightarrow>
                  1 \<le> n \<and>
                  dropWhile isSpace (if take 1 s3 = [ch CHR ''|''] then drop 1 s3 else s3) = []))"

section \<open>Blocks and the parser state\<close>

text \<open>
  The elements that \<open>renderMarkdown\<close> pushes onto \<open>blocks\<close>, with the properties the
  code passes to them (React keys and colours are left out):
  a \<open>Box\<close> of wrapped inline text (\<open>Paragraph\<close>), a header \<open>Box\<close> with its level and
  text, \<open>BuildListItem\<close>, \<open>BuildCodeBlock\<close>, \<open>BuildTable\<close>, the rule \<open>Box\<close> with the
  repeated line character, and the one-line empty \<open>Box\<close> (\<open>Spacer\<close>).
\<close>

datatype listType = UL | OL

datatype block =
    Paragraph jsstring
  | Header nat jsstring
  | ListItem listType jsstring jsstring jsstring
  | CodeBlock "jsstring list" "jsstring option" int
  | Table "jsstring list" "jsstring list list" int
  | HorizontalRule jsstring
  | Spacer

text \<open>The arguments of \<open>ListItem\<close> are \<open>marker\<close>, \<open>indentation\<close> and \<open>itemText\<close>; those of
  \<open>CodeBlock\<close> are \<open>lines\<close>, \<open>language\<close> and \<open>terminalWidth\<close>; those of \<open>Table\<close> are
  \<open>columnHeaders\<close>, \<open>dataRows\<close> and \<open>maxWidth\<close>.\<close>

record pstate =
  blocks :: "block list"
  previousLineWasEmpty :: bool
  codeBlockActive :: bool
  codeBlockLines :: "jsstring list"
  codeBlockLanguage :: "jsstring option"
  codeBlockFence :: jsstring
  tableActive :: bool
  tableHeaderCells :: "jsstring list"
  tableDataRows :: "jsstring list list"

definition initialState :: pstate where
  "initialState =
     \<lparr>blocks = [], previousLineWasEmpty = True,
      codeBlockActive = False, codeBlockLines = [], codeBlockLanguage = None, codeBlockFence = [],
      tableActive = False, tableHeaderCells = [], tableDataRows = []\<rparr>"

text \<open>\<open>appendBlock\<close>: every element the code passes is truthy, so the block is pushed and
  the flag is cleared.\<close>

definition appendBlock :: "block \<Rightarrow> pstate \<Rightarrow> pstate" where
  "appendBlock b st = st\<lparr>blocks := blocks st @ [b], previousLineWasEmpty := False\<rparr>"

text \<open>\<open>tableRowMatch[1].split('|').map((cell) => cell.trim())\<close>\<close>

definition rowCells :: "jsstring \<Rightarrow> jsstring list" where
  "rowCells g = map trim (splitOn (ch CHR ''|'') g)"

text \<open>The two statements that pad a data row with empty cells and cut it to the header's
  length.\<close>

definition coerceCells :: "nat \<Rightarrow> jsstring list \<Rightarrow> jsstring list" where
  "coerceCells n cells = take n (cells @ replicate (n - length cells) [])"

text \<open>The body of the \<open>if (codeBlockActive)\<close> branch: a fence line whose group 1 starts with
  the first character of the opening fence and is at least as long closes the block; any
  other line is pushed onto \<open>codeBlockLines\<close>.\<close>

definition closesFence :: "jsstring \<Rightarrow> jsstring \<Rightarrow> bool" where
  "closesFence openFence line =
     (case codeFence line of
        Some (f, lang) \<Rightarrow> take 1 f = take 1 openFence \<and> length openFence \<le> length f
      | None \<Rightarrow> False)"

definition insideCodeBlock :: "int \<Rightarrow> jsstring \<Rightarrow> pstate \<Rightarrow> pstate" where
  "insideCodeBlock terminalWidth currentLine st =
     (if closesFence (codeBlockFence st) currentLine
      then (appendBlock (CodeBlock (codeBlockLines st) (codeBlockLanguage st) terminalWidth) st)
             \<lparr>codeBlockActive := False, codeBlockLines := [], codeBlockLanguage := None,
              codeBlockFence := []\<rparr>
      else st\<lparr>codeBlockLines := codeBlockLines st @ [currentLine]\<rparr>)"

text \<open>The body of the \<open>// Table end\<close> branch.\<close>

definition tableEnd :: "int \<Rightarrow> jsstring \<Rightarrow> pstate \<Rightarrow> pstate" where
  "tableEnd terminalWidth currentLine st =
     (let st1 = (if tableHeaderCells st \<noteq> [] \<and> tableDataRows st \<noteq> []
                 then appendBlock (Table (tableHeaderCells st) (tableDataRows st) terminalWidth) st
                 else st);
          st2 = st1\<lparr>tableActive := False, tableDataRows := [], tableHeaderCells := []\<rparr>
      in if trim currentLine \<noteq> [] then appendBlock (Paragraph currentLine) st2 else st2)"

text \<open>
  The callback of \<open>lineArray.forEach\<close>, as a function of the width, the current line, the
  line after it (\<open>None\<close> at the last line) and the state. The branches are those of the
  source, in its order. The only expression that can throw is the \<open>repeat\<close> of the
  horizontal rule.
\<close>

definition processLine :: "int \<Rightarrow> jsstring \<Rightarrow> jsstring option \<Rightarrow> pstate \<Rightarrow> error + pstate" where
  "processLine terminalWidth currentLine nextLine st =
     (if codeBlockActive st then Inr (insideCodeBlock terminalWidth currentLine st)
      else
        let fenceMatch = codeFence currentLine;
            headerMatch = header currentLine;
            ulMatch = unorderedList currentLine;
            olMatch = orderedList currentLine;
            hrMatch = horizontalRule currentLine;
            tableRowMatch = tableRow currentLine;
            tableSepMatch = tableSeparator currentLine
        in
        if fenceMatch \<noteq> None then
          Inr (st\<lparr>codeBlockActive := True,
                  codeBlockFence := fst (the fenceMatch),
                  codeBlockLanguage := (if snd (the fenceMatch) = [] then None
                                        else Some (snd (the fenceMatch)))\<rparr>)
        else if tableRowMatch \<noteq> None \<and> \<not> tableActive st then
          (if (case nextLine of Some n \<Rightarrow> tableSeparator n | None \<Rightarrow> False)
           then Inr (st\<lparr>tableActive := True,
                        tableHeaderCells := rowCells (the tableRowMatch),
                        tableDataRows := []\<rparr>)
           else Inr (appendBlock (Paragraph currentLine) st))
        else if tableActive st \<and> tableSepMatch then Inr st
        else if tableActive st \<and> tableRowMatch \<noteq> None then
          Inr (st\<lparr>tableDataRows := tableDataRows st @
                  [coerceCells (length (tableHeaderCells st)) (rowCells (the tableRowMatch))]\<rparr>)
        else if tableActive st \<and> tableRowMatch = None then
          Inr (tableEnd terminalWidth currentLine st)
        else if hrMatch then
          (case repeat [0x2500] (min 40 (terminalWidth - 4)) of
             Inl e \<Rightarrow> Inl e
           | Inr rule \<Rightarrow> Inr (appendBlock (HorizontalRule rule) st))
        else if headerMatch \<noteq> None then
          Inr (appendBlock (Header (length (fst (the headerMatch))) (snd (the headerMatch))) st)
        else if ulMatch \<noteq> None then
          (case the ulMatch of (indent, marker, content) \<Rightarrow>
             Inr (appendBlock (ListItem UL marker indent content) st))
        else if olMatch \<noteq> None then
          (case the olMatch of (indent, marker, content) \<Rightarrow>
             Inr (appendBlock (ListItem OL marker indent content) st))
        else if trim currentLine = [] \<and> \<not> codeBlockActive st then
          (if \<not> previousLineWasEmpty st
           then Inr (st\<lparr>blocks := blocks st @ [Spacer], previousLineWasEmpty := True\<rparr>)
           else Inr st)
        else Inr (appendBlock (Paragraph currentLine) st))"

text \<open>The \<open>forEach\<close> loop; an exception thrown by the callback ends it.\<close>

fun forEachLine :: "int \<Rightarrow> jsstring list \<Rightarrow> pstate \<Rightarrow> error + pstate" where
  "forEachLine terminalWidth [] st = Inr st"
| "forEachLine terminalWidth (currentLine # rest) st =
     (case processLine terminalWidth currentLine (case rest of [] \<Rightarrow> None | n # _ \<Rightarrow> Some n) st of
        Inl e \<Rightarrow> Inl e
      | Inr st' \<Rightarrow> forEachLine terminalWidth rest st')"

text \<open>The two statements after the loop: an open code block is emitted, then an open
  table that has header cells and data rows.\<close>

definition flushOpen :: "int \<Rightarrow> pstate \<Rightarrow> pstate" where
  "flushOpen terminalWidth st =
     (let st1 = (if codeBlockActive st
                 then appendBlock (CodeBlock (codeBlockLines st) (codeBlockLanguage st) terminalWidth) st
                 else st)
      in if tableActive st1 \<and> tableHeaderCells st1 \<noteq> [] \<and> tableDataRows st1 \<noteq> []
         then appendBlock (Table (tableHeaderCells st1) (tableDataRows st1) terminalWidth) st1
         else st1)"

text \<open>Everything \<open>renderMarkdown\<close> does once the text is split into lines.\<close>

definition renderLines :: "jsstring list \<Rightarrow> int \<Rightarrow> error + block list" where
  "renderLines lineArray terminalWidth =
     (case forEachLine terminalWidth lineArray initialState of
        Inl e \<Rightarrow> Inl e
      | Inr st \<Rightarrow> Inr (blocks (flushOpen terminalWidth st)))"

text \<open>\<open>renderMarkdown(text, {terminalWidth})\<close>: \<open>None\<close> is the \<open>null\<close> returned for the
  empty text, \<open>Some bs\<close> the fragment of the blocks \<open>bs\<close>, \<open>Inl\<close> a thrown exception.\<close>

definition renderMarkdown :: "jsstring \<Rightarrow> int \<Rightarrow> error + block list option" where
  "renderMarkdown text terminalWidth =
     (if text = [] then Inr None
      else case renderLines (splitLines text) terminalWidth of
             Inl e \<Rightarrow> Inl e
           | Inr bs \<Rightarrow> Inr (Some bs))"

section \<open>calculateTextWidth\<close>

text \<open>
  The lazy group followed by a literal, \<open>(.*?)CLOSE\<close>, matched at the start of a string:
  the shortest run of characters other than line terminators after which \<open>CLOSE\<close>
  stands. The result is the group and what follows \<open>CLOSE\<close>.
\<close>

fun lazyUntil :: "jsstring \<Rightarrow> jsstring \<Rightarrow> (jsstring \<times> jsstring) option" where
  "lazyUntil close [] = (if close = [] then Some ([], []) else None)"
| "lazyUntil close (c # cs) =
     (if take (length close) (c # cs) = close then Some ([], drop (length close) (c # cs))
      else if isLineTerminator c then None
      else (case lazyUntil close cs of
              Some (inner, rest) \<Rightarrow> Some (c # inner, rest)
            | None \<Rightarrow> None))"

text \<open>
  \<open>s.replace(/OPEN(.*?)CLOSE/g, '$1')\<close> for literal \<open>OPEN\<close> and \<open>CLOSE\<close>: at each
  position, from the left, a match is replaced by its group and the scan goes on after
  the match; where nothing matches the character is kept.
\<close>

function replaceDelimited :: "jsstring \<Rightarrow> jsstring \<Rightarrow> jsstring \<Rightarrow> jsstring" where
  "replaceDelimited opn cls [] = []"
| "replaceDelimited opn cls (c # cs) =
     (if opn \<noteq> [] \<and> take (length opn) (c # cs) = opn then
        (case lazyUntil cls (drop (length opn) (c # cs)) of
           Some (inner, rest) \<Rightarrow> inner @ replaceDelimited opn cls rest
         | None \<Rightarrow> c # replaceDelimited opn cls cs)
      else c # replaceDelimited opn cls cs)"
  by pat_completeness auto
termination
proof (relation "measure (\<lambda>(opn, cls, s). length s)")
  show "wf (measure (\<lambda>(opn, cls, s). length s))" by simp
next
  fix opn cls :: jsstring and c :: jschar and cs x2 inner rest
  assume o: "opn \<noteq> [] \<and> take (length opn) (c # cs) = opn"
    and l: "lazyUntil cls (drop (length opn) (c # cs)) = Some x2" and x: "(inner, rest) = x2"
  have len: "length r \<le> length t" if "lazyUntil cls t = Some (i, r)" for t i r
    using that
  proof (induction t arbitrary: i r)
    case Nil
    then show ?case by (simp split: if_splits)
  next
    case (Cons a t)
    show ?case
    proof (cases "take (length cls) (a # t) = cls")
      case True
      then have "r = drop (length cls) (a # t)" using Cons.prems by auto
      then show ?thesis by simp
    next
      case False
      then obtain i' where "lazyUntil cls t = Some (i', r)"
        using Cons.prems by (auto split: if_splits option.splits)
      from Cons.IH [OF this] show ?thesis by simp
    qed
  qed
  from o have "0 < length opn" by simp
  then have "length (drop (length opn) (c # cs)) < length (c # cs)" by simp
  moreover have "lazyUntil cls (drop (length opn) (c # cs)) = Some (inner, rest)"
    using l x by (simp only:)
  then have "length rest \<le> length (drop (length opn) (c # cs))" by (rule len)
  ultimately show "((opn, cls, rest), (opn, cls, c # cs)) \<in> measure (\<lambda>(opn, cls, s). length s)"
    by simp
next
  fix opn cls :: jsstring and c :: jschar and cs
  show "((opn, cls, cs), (opn, cls, c # cs)) \<in> measure (\<lambda>(opn, cls, s). length s)" by simp
next
  fix opn cls :: jsstring and c :: jschar and cs
  show "((opn, cls, cs), (opn, cls, c # cs)) \<in> measure (\<lambda>(opn, cls, s). length s)" by simp
qed

text \<open>
  The last replacement, \<open>/.*\[(.*?)\]\(.*\)/g\<close> by \<open>'$1'\<close>, piece by piece.
  \<open>greedyParen\<close> is \<open>.*\)\<close>: the greedy \<open>.*\<close> runs to the end of the line and gives
  characters back until a \<open>)\<close> stands, so the match ends behind the last \<open>)\<close> of the
  line; the result is what follows it.
\<close>

fun greedyParen :: "jsstring \<Rightarrow> jsstring option" where
  "greedyParen [] = None"
| "greedyParen (c # cs) =
     (if isLineTerminator c then None
      else (case greedyParen cs of
              Some rest \<Rightarrow> Some rest
            | None \<Rightarrow> if c = ch CHR '')'' then Some cs else None))"

text \<open>\<open>lazyLabel\<close> is \<open>(.*?)\]\(.*\)\<close>: the shortest group after which \<open>](\<close> stands and
  the rest of the pattern matches.\<close>

fun lazyLabel :: "jsstring \<Rightarrow> (jsstring \<times> jsstring) option" where
  "lazyLabel [] = None"
| "lazyLabel (c # cs) =
     (case (if take 2 (c # cs) = [ch CHR '']'', ch CHR ''(''] then greedyParen (drop 2 (c # cs))
            else None) of
        Some rest \<Rightarrow> Some ([], rest)
      | None \<Rightarrow>
          if isLineTerminator c then None
          else (case lazyLabel cs of
                  Some (label, rest) \<Rightarrow> Some (c # label, rest)
                | None \<Rightarrow> None))"

text \<open>\<open>linkAt\<close> is the whole pattern at the start of a string: the leading greedy \<open>.*\<close>
  takes as many characters as it can, so the \<open>[\<close> is the last one of the line after
  which the rest matches. The result is group 1 and what follows the match.\<close>

fun linkAt :: "jsstring \<Rightarrow> (jsstring \<times> jsstring) option" where
  "linkAt [] = None"
| "linkAt (c # cs) =
     (if isLineTerminator c then None
      else (case linkAt cs of
              Some r \<Rightarrow> Some r
            | None \<Rightarrow> if c = ch CHR ''['' then lazyLabel cs else None))"

function replaceLinks :: "jsstring \<Rightarrow> jsstring" where
  "replaceLinks [] = []"
| "replaceLinks (c # cs) =
     (case linkAt (c # cs) of
        Some (label, rest) \<Rightarrow> label @ replaceLinks rest
      | None \<Rightarrow> c # replaceLinks cs)"
  by pat_completeness auto
termination
proof (relation "measure length")
  show "wf (measure length)" by simp
next
  fix c :: jschar and cs x2 label rest
  assume l: "linkAt (c # cs) = Some x2" and x: "(label, rest) = x2"
  have gp: "length r < length t" if "greedyParen t = Some r" for t r
    using that
  proof (induction t)
    case Nil
    then show ?case by simp
  next
    case (Cons a t)
    show ?case
    proof (cases "greedyParen t")
      case None
      then show ?thesis using Cons.prems by (simp split: if_splits)
    next
      case (Some r')
      then have "r' = r" using Cons.prems by (simp split: if_splits)
      with Cons.IH Some show ?thesis by simp
    qed
  qed
  have ll: "length r < length t" if "lazyLabel t = Some (i, r)" for t i r
    using that
  proof (induction t arbitrary: i)
    case Nil
    then show ?case by simp
  next
    case (Cons a t)
    define g where "g = (if take 2 (a # t) = [ch CHR '']'', ch CHR ''(''] then greedyParen (drop 2 (a # t))
            else None)"
    show ?case
    proof (cases g)
      case None
      then obtain i' where "lazyLabel t = Some (i', r)"
        using Cons.prems unfolding lazyLabel.simps g_def [symmetric]
        by (auto split: if_splits option.splits)
      from Cons.IH [OF this] show ?thesis by simp
    next
      case (Some r')
      then have "r' = r" using Cons.prems unfolding lazyLabel.simps g_def [symmetric] by simp
      moreover have "greedyParen (drop 2 (a # t)) = Some r'"
        using Some unfolding g_def by (simp split: if_splits)
      ultimately have "length r < length (drop 2 (a # t))" using gp by blast
      then show ?thesis by simp
    qed
  qed
  have la: "length r < length t" if "linkAt t = Some (i, r)" for t i r
    using that
  proof (induction t)
    case Nil
    then show ?case by simp
  next
    case (Cons a t)
    show ?case
    proof (cases "linkAt t")
      case None
      then have "lazyLabel t = Some (i, r)" using Cons.prems by (simp split: if_splits)
      from ll [OF this] show ?thesis by simp
    next
      case (Some p)
      then have "linkAt t = Some (i, r)" using Cons.prems by (simp split: if_splits)
      from Cons.IH [OF this] show ?thesis by simp
    qed
  qed
  have "linkAt (c # cs) = Some (label, rest)" using l x by (simp only:)
  from la [OF this] show "(rest, c # cs) \<in> measure length" by simp
next
  fix c :: jschar and cs
  show "(cs, c # cs) \<in> measure length" by simp
qed

text \<open>The seven replacements of \<open>calculateTextWidth\<close>, in the order of the source.\<close>

definition plainText :: "jsstring \<Rightarrow> jsstring" where
  "plainText content =
     replaceLinks
      (replaceDelimited (js ''<u>'') (js ''</u>'')
        (replaceDelimited (js ''`'') (js ''`'')
          (replaceDelimited (js ''~~'') (js ''~~'')
            (replaceDelimited (js ''_'') (js ''_'')
              (replaceDelimited (js ''*'') (js ''*'')
                (replaceDelimited (js ''**'') (js ''**'') content))))))"

text \<open>The test of the loop body on \<open>code = char.charCodeAt(0)\<close>.\<close>

definition isWide :: "jschar \<Rightarrow> bool" where
  "isWide code \<longleftrightarrow>
     code \<ge> 0x1100 \<and>
     (code \<le> 0x115f \<or>
      code = 0x2329 \<or> code = 0x232a \<or>
      (code \<ge> 0x2e80 \<and> code \<le> 0xa4cf \<and> code \<noteq> 0x303f) \<or>
      (code \<ge> 0xac00 \<and> code \<le> 0xd7a3) \<or>
      (code \<ge> 0xf900 \<and> code \<le> 0xfaff) \<or>
      (code \<ge> 0xfe10 \<and> code \<le> 0xfe1f) \<or>
      (code \<ge> 0xfe30 \<and> code \<le> 0xfe6f) \<or>
      (code \<ge> 0xff00 \<and> code \<le> 0xff60) \<or>
      (code \<ge> 0xffe0 \<and> code \<le> 0xffe6))"

text \<open>
  \<open>for (const char of plainText)\<close> visits code points: a high surrogate followed by a
  low surrogate is one \<open>char\<close>, whose \<open>charCodeAt(0)\<close> is the high surrogate; every
  other code unit is a \<open>char\<close> of its own.
\<close>

fun widthLoop :: "jsstring \<Rightarrow> int" where
  "widthLoop [] = 0"
| "widthLoop [c] = (if isWide c then 2 else 1)"
| "widthLoop (c # d # cs) =
     (if isWide c then 2 else 1) +
     (if 0xD800 \<le> c \<and> c \<le> 0xDBFF \<and> 0xDC00 \<le> d \<and> d \<le> 0xDFFF then widthLoop cs
      else widthLoop (d # cs))"

definition calculateTextWidth :: "jsstring \<Rightarrow> int" where
  "calculateTextWidth content = widthLoop (plainText content)"

section \<open>BuildTable\<close>

text \<open>\<open>widthPerColumn\<close>: the widest of the header cell and of the cells of the column
  (a missing or empty cell counts as the empty string), plus 2.\<close>

definition widthPerColumn :: "jsstring list \<Rightarrow> jsstring list list \<Rightarrow> int list" where
  "widthPerColumn columnHeaders dataRows =
     map (\<lambda>(headerText, columnIndex).
            let headerDisplayWidth = calculateTextWidth headerText;
                maxDataWidth =
                  fold max
                    (map (\<lambda>rowData. calculateTextWidth
                            (if columnIndex < length rowData then rowData ! columnIndex else []))
                         dataRows)
                    0
            in max headerDisplayWidth maxDataWidth + 2)
         (zip columnHeaders [0..<length columnHeaders])"

definition totalRequiredWidth :: "int list \<Rightarrow> int" where
  "totalRequiredWidth widths = fold (\<lambda>w sum. sum + w + 1) widths 1"

text \<open>\<open>buildCell(cellText, cellWidth)\<close>: the text that is shown and the number of blanks
  that pad it (the header style does not change either).\<close>

definition buildCell :: "jsstring \<Rightarrow> int \<Rightarrow> jsstring \<times> int" where
  "buildCell cellText cellWidth =
     (let availableWidth = max 0 (cellWidth - 2);
          actualWidth = calculateTextWidth cellText;
          displayText = (if actualWidth > availableWidth
                         then take (nat (max 0 (availableWidth - 3))) cellText @ js ''...''
                         else cellText);
          paddingRequired = max 0 (availableWidth - calculateTextWidth displayText)
      in (displayText, paddingRequired))"

section \<open>ProcessInlineText\<close>

text \<open>
  The elements that \<open>ProcessInlineText\<close> returns for one text: unformatted text (the
  stretches between matches, and a match that no branch formats), bold, italic,
  strikethrough, inline code, a link with its label and its address, underline, and a
  bare address.
\<close>

datatype span =
    Plain jsstring
  | Bold jsstring
  | Italic jsstring
  | Strike jsstring
  | Code jsstring
  | Link jsstring jsstring
  | Underline jsstring
  | AutoLink jsstring

text \<open>The quick check \<open>/[*_~`<[https?:]/.test(content)\<close>: a character class.\<close>

definition hasTrigger :: "jsstring \<Rightarrow> bool" where
  "hasTrigger content = list_ex (\<lambda>c. c \<in> set (js ''*_~`<[https?:'')) content"

text \<open>
  The alternatives of \<open>patternRegex\<close>, each matched at the start of a string and giving
  the length of its match. \<open>delimited\<close> is \<open>OPEN.*?CLOSE\<close> for literal \<open>OPEN\<close> and
  \<open>CLOSE\<close>.
\<close>

definition delimited :: "jsstring \<Rightarrow> jsstring \<Rightarrow> jsstring \<Rightarrow> nat option" where
  "delimited opn cls s =
     (if take (length opn) s = opn then
        (case lazyUntil cls (drop (length opn) s) of
           Some (inner, rest) \<Rightarrow> Some (length opn + length inner + length cls)
         | None \<Rightarrow> None)
      else None)"

text \<open>\<open>\[(.*?)\]\((.*?)\)\<close>: label, address and what follows the match. Once \<open>](\<close> is
  found and no \<open>)\<close> follows on the line, none follows a later \<open>](\<close> either.\<close>

definition linkParts :: "jsstring \<Rightarrow> (jsstring \<times> jsstring \<times> jsstring) option" where
  "linkParts s =
     (case s of
        [] \<Rightarrow> None
      | c # cs \<Rightarrow>
          if c = ch CHR ''['' then
            (case lazyUntil (js '']('') cs of
               Some (label, r1) \<Rightarrow>
                 (case lazyUntil (js '')'') r1 of
                    Some (url, r2) \<Rightarrow> Some (label, url, r2)
                  | None \<Rightarrow> None)
             | None \<Rightarrow> None)
          else None)"

text \<open>\<open>`+.+?`+\<close>. \<open>codeBody\<close> is \<open>.+?`+\<close>: one character, then the shortest run up to a
  backtick, then all the backticks that follow. \<open>codeTry k\<close> opens with \<open>k\<close> backticks
  and, where the body fails, with one fewer, as the greedy \<open>`+\<close> gives characters back.\<close>

definition codeBody :: "jsstring \<Rightarrow> nat option" where
  "codeBody t =
     (case t of
        [] \<Rightarrow> None
      | c # cs \<Rightarrow>
          if isLineTerminator c then None
          else (case lazyUntil (js ''`'') cs of
                  Some (inner, rest) \<Rightarrow>
                    Some (1 + length inner + 1 + length (takeWhile (\<lambda>x. x = ch CHR ''`'') rest))
                | None \<Rightarrow> None))"

fun codeTry :: "nat \<Rightarrow> jsstring \<Rightarrow> nat option" where
  "codeTry 0 s = None"
| "codeTry (Suc k) s =
     (case codeBody (drop (Suc k) s) of
        Some n \<Rightarrow> Some (Suc k + n)
      | None \<Rightarrow> codeTry k s)"

definition codeSpan :: "jsstring \<Rightarrow> nat option" where
  "codeSpan s = codeTry (length (takeWhile (\<lambda>x. x = ch CHR ''`'') s)) s"

text \<open>\<open>https?:\/\/\S+\<close>\<close>

definition bareUrl :: "jsstring \<Rightarrow> nat option" where
  "bareUrl s =
     (if take 4 s = js ''http'' then
        (let r = drop 4 s;
             k = (if take 1 r = js ''s'' then 1 else 0);
             r' = drop k r;
             run = takeWhile (\<lambda>c. \<not> isSpace c) (drop 3 r')
         in if take 3 r' = js ''://'' \<and> run \<noteq> [] then Some (4 + k + 3 + length run) else None)
      else None)"

definition orElse :: "'a option \<Rightarrow> 'a option \<Rightarrow> 'a option" where
  "orElse a b = (case a of Some x \<Rightarrow> Some x | None \<Rightarrow> b)"

text \<open>The alternation of \<open>patternRegex\<close> at one position: the first alternative that
  matches, in the order of the source.\<close>

definition matchAt :: "jsstring \<Rightarrow> nat option" where
  "matchAt s =
     orElse (delimited (js ''**'') (js ''**'') s)
    (orElse (delimited (js ''*'') (js ''*'') s)
    (orElse (delimited (js ''_'') (js ''_'') s)
    (orElse (delimited (js ''~~'') (js ''~~'') s)
    (orElse (case linkParts s of
               Some (label, url, rest) \<Rightarrow> Some (length label + length url + 4)
             | None \<Rightarrow> None)
    (orElse (codeSpan s)
    (orElse (delimited (js ''<u>'') (js ''</u>'') s)
            (bareUrl s)))))))"

text \<open>\<open>patternRegex.exec\<close> from the current position: the text before the leftmost
  match, the match, and the text after it.\<close>

fun findMatch :: "jsstring \<Rightarrow> (jsstring \<times> jsstring \<times> jsstring) option" where
  "findMatch [] = None"
| "findMatch (c # cs) =
     (case matchAt (c # cs) of
        Some n \<Rightarrow> Some ([], take n (c # cs), drop n (c # cs))
      | None \<Rightarrow>
          (case findMatch cs of
             Some (leading, matched, rest) \<Rightarrow> Some (c # leading, matched, rest)
           | None \<Rightarrow> None))"

definition startsWith :: "jsstring \<Rightarrow> jsstring \<Rightarrow> bool" where
  "startsWith s p \<longleftrightarrow> take (length p) s = p"

definition endsWith :: "jsstring \<Rightarrow> jsstring \<Rightarrow> bool" where
  "endsWith s p \<longleftrightarrow> length p \<le> length s \<and> drop (length s - length p) s = p"

fun includesStr :: "jsstring \<Rightarrow> jsstring \<Rightarrow> bool" where
  "includesStr [] p = (p = [])"
| "includesStr (c # cs) p = (take (length p) (c # cs) = p \<or> includesStr cs p)"

text \<open>\<open>s.slice(a, -b)\<close>\<close>

definition slice :: "jsstring \<Rightarrow> nat \<Rightarrow> nat \<Rightarrow> jsstring" where
  "slice s a b = drop a (take (length s - b) s)"

text \<open>\<open>matchedText.match(/^(`+)(.+?)\1$/s)\<close>, group 2: with \<open>k\<close> opening backticks the
  text must end in \<open>k\<close> backticks and hold at least one character between; the greedy
  group 1 tries the longest run first.\<close>

fun codePatternTry :: "nat \<Rightarrow> jsstring \<Rightarrow> jsstring option" where
  "codePatternTry 0 m = None"
| "codePatternTry (Suc k) m =
     (if 2 * Suc k < length m \<and> drop (length m - Suc k) m = replicate (Suc k) (ch CHR ''`'')
      then Some (take (length m - 2 * Suc k) (drop (Suc k) m))
      else codePatternTry k m)"

definition codePattern :: "jsstring \<Rightarrow> jsstring option" where
  "codePattern m = codePatternTry (length (takeWhile (\<lambda>x. x = ch CHR ''`'') m)) m"

text \<open>\<open>matchedText.match(/\[(.*?)\]\((.*?)\)/)\<close>, groups 1 and 2 of the leftmost match.\<close>

fun linkPattern :: "jsstring \<Rightarrow> (jsstring \<times> jsstring) option" where
  "linkPattern [] = None"
| "linkPattern (c # cs) =
     (case linkParts (c # cs) of
        Some (label, url, rest) \<Rightarrow> Some (label, url)
      | None \<Rightarrow> linkPattern cs)"

text \<open>
  The \<open>try\<close> block: the element for one match. \<open>prevChar\<close> and \<open>nextChar\<close> are the
  characters next to the match in \<open>content\<close> (the empty string at either end), which
  the italic branch tests with \<open>/\w/\<close>. A match that no branch formats is shown as
  it is.
\<close>

definition formatMatch :: "jsstring \<Rightarrow> jsstring \<Rightarrow> jsstring \<Rightarrow> span" where
  "formatMatch prevChar matchedText nextChar =
     (if startsWith matchedText (js ''**'') \<and> endsWith matchedText (js ''**'') \<and>
         length matchedText > 4
      then Bold (slice matchedText 2 2)
      else if length matchedText > 2 \<and>
              ((startsWith matchedText (js ''*'') \<and> endsWith matchedText (js ''*'')) \<or>
               (startsWith matchedText (js ''_'') \<and> endsWith matchedText (js ''_'')))
      then (if \<not> list_ex isWord prevChar \<and> \<not> list_ex isWord nextChar
            then Italic (slice matchedText 1 1) else Plain matchedText)
      else if startsWith matchedText (js ''~~'') \<and> endsWith matchedText (js ''~~'') \<and>
              length matchedText > 4
      then Strike (slice matchedText 2 2)
      else if startsWith matchedText (js ''`'') \<and> endsWith matchedText (js ''`'') \<and>
              length matchedText > 1
      then (case codePattern matchedText of
              Some code \<Rightarrow> Code code
            | None \<Rightarrow> Plain matchedText)
      else if startsWith matchedText (js ''['') \<and> includesStr matchedText (js '']('') \<and>
              endsWith matchedText (js '')'')
      then (case linkPattern matchedText of
              Some (label, url) \<Rightarrow> Link label url
            | None \<Rightarrow> Plain matchedText)
      else if startsWith matchedText (js ''<u>'') \<and> endsWith matchedText (js ''</u>'')
      then Underline (slice matchedText 3 4)
      else if startsWith matchedText (js ''http://'') \<or> startsWith matchedText (js ''https://'')
      then AutoLink matchedText
      else Plain matchedText)"

text \<open>
  The \<open>while\<close> loop over the matches. \<open>prevChar\<close> is the character of \<open>content\<close>
  before the current position (empty at the start), \<open>s\<close> the text from the current
  position on.
\<close>

function tokenize :: "jsstring \<Rightarrow> jsstring \<Rightarrow> span list" where
  "tokenize prevChar s =
     (case findMatch s of
        None \<Rightarrow> (if s \<noteq> [] then [Plain s] else [])
      | Some (leading, matchedText, rest) \<Rightarrow>
          (if leading \<noteq> [] then [Plain leading] else []) @
          [formatMatch (if leading = [] then prevChar else [last leading]) matchedText (take 1 rest)] @
          tokenize (drop (length matchedText - 1) matchedText) rest)"
  by pat_completeness auto
termination
proof (relation "measure (\<lambda>(p, s). length s)")
  show "wf (measure (\<lambda>(p, s). length s))" by simp
next
  fix prevChar s :: jsstring and x2 leading y matchedText rest
  assume f: "findMatch s = Some x2" and x: "(leading, y) = x2" and y: "(matchedText, rest) = y"
  have d: "0 < n" if a: "delimited opn cls t = Some n" and b: "opn \<noteq> []" for opn cls t n
  proof (cases "take (length opn) t = opn")
    case True
    show ?thesis
    proof (cases "lazyUntil cls (drop (length opn) t)")
      case None
      then show ?thesis using a True unfolding delimited_def by simp
    next
      case (Some p)
      then have "n = length opn + length (fst p) + length cls"
        using a True unfolding delimited_def by (cases p) simp
      then show ?thesis using b by simp
    qed
  next
    case False
    then show ?thesis using a unfolding delimited_def by simp
  qed
  have l: "0 < n"
    if "(case linkParts t of Some (label, url, rest) \<Rightarrow> Some (length label + length url + 4)
         | None \<Rightarrow> None) = Some n" for t n
    using that by (cases "linkParts t") auto
  have ct: "0 < n" if "codeTry k t = Some n" for k t n
    using that by (induction k) (auto split: option.splits)
  have u: "0 < n" if "bareUrl t = Some n" for t n
  proof (cases "take 4 t = js ''http''")
    case True
    define r' where "r' = drop (if take 1 (drop 4 t) = js ''s'' then 1 else 0) (drop 4 t)"
    define run where "run = takeWhile (\<lambda>c. \<not> isSpace c) (drop 3 r')"
    have "bareUrl t = (if take 3 r' = js ''://'' \<and> run \<noteq> []
        then Some (4 + (if take 1 (drop 4 t) = js ''s'' then 1 else 0) + 3 + length run) else None)"
      unfolding bareUrl_def Let_def run_def r'_def using True by simp
    then show ?thesis using that by (cases "take 3 r' = js ''://'' \<and> run \<noteq> []") auto
  next
    case False
    then show ?thesis using that unfolding bareUrl_def by simp
  qed
  have ne: "js ''**'' \<noteq> []" "js ''*'' \<noteq> []" "js ''_'' \<noteq> []" "js ''~~'' \<noteq> []"
    "js ''<u>'' \<noteq> []" by (simp_all add: js_def)
  have m: "0 < n" if "matchAt t = Some n" for t n
  proof -
    have oe: "orElse a b = Some n \<Longrightarrow> a = Some n \<or> b = Some n" for a b :: "nat option"
      by (cases a) (auto simp: orElse_def)
    from that consider
        "delimited (js ''**'') (js ''**'') t = Some n" | "delimited (js ''*'') (js ''*'') t = Some n"
      | "delimited (js ''_'') (js ''_'') t = Some n" | "delimited (js ''~~'') (js ''~~'') t = Some n"
      | "(case linkParts t of Some (label, url, rest) \<Rightarrow> Some (length label + length url + 4)
         | None \<Rightarrow> None) = Some n"
      | "codeSpan t = Some n" | "delimited (js ''<u>'') (js ''</u>'') t = Some n"
      | "bareUrl t = Some n"
      unfolding matchAt_def by (blast dest: oe)
    then show ?thesis
    proof cases
      case 1 then show ?thesis using d ne(1) by blast
    next
      case 2 then show ?thesis using d ne(2) by blast
    next
      case 3 then show ?thesis using d ne(3) by blast
    next
      case 4 then show ?thesis using d ne(4) by blast
    next
      case 5 then show ?thesis by (rule l)
    next
      case 6 then show ?thesis unfolding codeSpan_def by (rule ct)
    next
      case 7 then show ?thesis using d ne(5) by blast
    next
      case 8 then show ?thesis by (rule u)
    qed
  qed
  have fm: "length r < length t" if "findMatch t = Some (b, mt, r)" for t b mt r
    using that
  proof (induction t arbitrary: b)
    case Nil
    then show ?case by simp
  next
    case (Cons c cs)
    show ?case
    proof (cases "matchAt (c # cs)")
      case None
      then obtain b' where "findMatch cs = Some (b', mt, r)"
        using Cons.prems by (auto split: option.splits)
      from Cons.IH [OF this] show ?thesis by simp
    next
      case (Some n)
      then have "r = drop n (c # cs)" using Cons.prems by simp
      moreover have "0 < n" using Some by (rule m)
      ultimately show ?thesis by simp
    qed
  qed
  have "findMatch s = Some (leading, matchedText, rest)" using f x y by (simp only:)
  from fm [OF this]
  show "((drop (length matchedText - 1) matchedText, rest), (prevChar, s)) \<in> measure (\<lambda>(p, s). length s)"
    by simp
qed

text \<open>\<open>ProcessInlineText\<close>: a text without any character of the quick check is one plain
  element.\<close>

definition ProcessInlineText :: "jsstring \<Rightarrow> span list" where
  "ProcessInlineText content =
     (if \<not> hasTrigger content then [Plain content] else tokenize [] content)"

section \<open>The loop over the first lines of a text\<close>


section \<open>Predicates used in the proofs\<close>

text \<open>No two neighbours of a block list are both spacers.\<close>

definition noAdjacentSpacers :: "block list \<Rightarrow> bool" where
  "noAdjacentSpacers bs \<longleftrightarrow> (\<forall>i. Suc i < length bs \<longrightarrow> \<not> (bs ! i = Spacer \<and> bs ! Suc i = Spacer))"

text \<open>The invariant of the loop that ties the flag to the blocks pushed so far.\<close>

definition spacerInv :: "pstate \<Rightarrow> bool" where
  "spacerInv st \<longleftrightarrow>
     (\<not> previousLineWasEmpty st \<longrightarrow> blocks st \<noteq> [] \<and> last (blocks st) \<noteq> Spacer) \<and>
     (blocks st \<noteq> [] \<longrightarrow> hd (blocks st) \<noteq> Spacer) \<and> noAdjacentSpacers (blocks st)"

text \<open>One non-spacer block is appended through \<open>appendBlock\<close>.\<close>

definition emits :: "pstate \<Rightarrow> pstate \<Rightarrow> bool" where
  "emits st st' \<longleftrightarrow> (\<exists>b. b \<noteq> Spacer \<and> st' = appendBlock b st)"

section \<open>Lemmas about the parser\<close>

lemma noAdjacentSpacers_snoc2:
  "noAdjacentSpacers (ys @ [y, b]) \<longleftrightarrow> noAdjacentSpacers (ys @ [y]) \<and> \<not> (y = Spacer \<and> b = Spacer)"
  unfolding noAdjacentSpacers_def
proof (intro iffI conjI allI impI)
  assume h: "\<forall>i. Suc i < length (ys @ [y, b]) \<longrightarrow> \<not> ((ys @ [y, b]) ! i = Spacer \<and> (ys @ [y, b]) ! Suc i = Spacer)"
  { fix i assume i: "Suc i < length (ys @ [y])"
    then have "Suc i < length (ys @ [y, b])" by simp
    with h have "\<not> ((ys @ [y, b]) ! i = Spacer \<and> (ys @ [y, b]) ! Suc i = Spacer)" by blast
    moreover have "(ys @ [y, b]) ! i = (ys @ [y]) ! i" "(ys @ [y, b]) ! Suc i = (ys @ [y]) ! Suc i"
      using i by (auto simp: nth_append)
    ultimately show "\<not> ((ys @ [y]) ! i = Spacer \<and> (ys @ [y]) ! Suc i = Spacer)" by simp }
  from h [rule_format, of "length ys"] show "\<not> (y = Spacer \<and> b = Spacer)"
    by (simp add: nth_append)
next
  fix i
  assume h: "(\<forall>i. Suc i < length (ys @ [y]) \<longrightarrow> \<not> ((ys @ [y]) ! i = Spacer \<and> (ys @ [y]) ! Suc i = Spacer)) \<and> \<not> (y = Spacer \<and> b = Spacer)"
    and i: "Suc i < length (ys @ [y, b])"
  show "\<not> ((ys @ [y, b]) ! i = Spacer \<and> (ys @ [y, b]) ! Suc i = Spacer)"
  proof (cases "i = length ys")
    case True
    then show ?thesis using h by (simp add: nth_append)
  next
    case False
    with i have i': "Suc i < length (ys @ [y])" by simp
    have "(ys @ [y, b]) ! i = (ys @ [y]) ! i" "(ys @ [y, b]) ! Suc i = (ys @ [y]) ! Suc i"
      using i' by (auto simp: nth_append)
    with h i' show ?thesis by metis
  qed
qed

lemma noAdjacentSpacers_snoc:
  "noAdjacentSpacers (bs @ [b]) \<longleftrightarrow>
     noAdjacentSpacers bs \<and> (b = Spacer \<longrightarrow> bs = [] \<or> last bs \<noteq> Spacer)"
proof (cases bs rule: rev_cases)
  case Nil
  then show ?thesis by (simp add: noAdjacentSpacers_def)
next
  case (snoc ys y)
  then show ?thesis using noAdjacentSpacers_snoc2 [of ys y b] by auto
qed

lemma spacerInv_appendBlock: "spacerInv st \<Longrightarrow> b \<noteq> Spacer \<Longrightarrow> spacerInv (appendBlock b st)"
  by (simp add: spacerInv_def appendBlock_def noAdjacentSpacers_snoc hd_append)

lemma spacerInv_pushSpacer:
  "spacerInv st \<Longrightarrow> \<not> previousLineWasEmpty st \<Longrightarrow>
   spacerInv (st\<lparr>blocks := blocks st @ [Spacer], previousLineWasEmpty := True\<rparr>)"
  by (simp add: spacerInv_def noAdjacentSpacers_snoc hd_append)

lemma spacerInv_same:
  "spacerInv st \<Longrightarrow> blocks st' = blocks st \<Longrightarrow> previousLineWasEmpty st' = previousLineWasEmpty st \<Longrightarrow>
   spacerInv st'"
  by (simp add: spacerInv_def)

lemma spacerInv_insideCodeBlock: "spacerInv st \<Longrightarrow> spacerInv (insideCodeBlock w l st)"
proof -
  assume a: "spacerInv st"
  show ?thesis
  proof (cases "closesFence (codeBlockFence st) l")
    case True
    have "spacerInv (appendBlock (CodeBlock (codeBlockLines st) (codeBlockLanguage st) w) st)"
      using a by (rule spacerInv_appendBlock) simp
    then show ?thesis using True by (simp add: insideCodeBlock_def spacerInv_def)
  next
    case False
    then show ?thesis using a by (simp add: insideCodeBlock_def spacerInv_def)
  qed
qed

lemma spacerInv_tableEnd: "spacerInv st \<Longrightarrow> spacerInv (tableEnd w l st)"
proof -
  assume a: "spacerInv st"
  define st1 where "st1 = (if tableHeaderCells st \<noteq> [] \<and> tableDataRows st \<noteq> []
                 then appendBlock (Table (tableHeaderCells st) (tableDataRows st) w) st
                 else st)"
  define st2 where "st2 = st1\<lparr>tableActive := False, tableDataRows := [], tableHeaderCells := []\<rparr>"
  have 1: "spacerInv st1" unfolding st1_def using a by (simp add: spacerInv_appendBlock)
  have 2: "spacerInv st2" unfolding st2_def using 1 by (simp add: spacerInv_def)
  have "tableEnd w l st = (if trim l \<noteq> [] then appendBlock (Paragraph l) st2 else st2)"
    by (simp add: tableEnd_def st1_def st2_def Let_def)
  then show ?thesis using 2 by (simp add: spacerInv_appendBlock)
qed

lemma emitsI: "b \<noteq> Spacer \<Longrightarrow> emits st (appendBlock b st)"
  by (auto simp: emits_def)

lemma processLine_normal_cases:
  assumes "processLine w l n st = Inr st'" and "\<not> codeBlockActive st"
  shows "(tableActive st \<and> st' = tableEnd w l st) \<or> emits st st' \<or>
         (blocks st' = blocks st \<and> previousLineWasEmpty st' = previousLineWasEmpty st) \<or>
         (\<not> previousLineWasEmpty st \<and> trim l = [] \<and> \<not> tableActive st \<and>
          st' = st\<lparr>blocks := blocks st @ [Spacer], previousLineWasEmpty := True\<rparr>)"
  using assms unfolding processLine_def Let_def repeat_def
  by (auto split: if_splits prod.splits intro!: emitsI)

lemma spacerInv_processLine:
  assumes "spacerInv st" and "processLine w l n st = Inr st'"
  shows "spacerInv st'"
proof (cases "codeBlockActive st")
  case True
  then show ?thesis using assms by (auto simp: processLine_def spacerInv_insideCodeBlock)
next
  case False
  from processLine_normal_cases [OF assms(2) False] show ?thesis
    using assms(1)
    by (auto simp: emits_def intro: spacerInv_appendBlock spacerInv_tableEnd spacerInv_pushSpacer spacerInv_same)
qed

lemma spacerInv_forEachLine:
  "spacerInv st \<Longrightarrow> forEachLine w ls st = Inr st' \<Longrightarrow> spacerInv st'"
proof (induction ls arbitrary: st)
  case Nil
  then show ?case by simp
next
  case (Cons l ls)
  then show ?case
    by (auto split: sum.splits dest: spacerInv_processLine)
qed

lemma spacerInv_flushOpen: "spacerInv st \<Longrightarrow> spacerInv (flushOpen w st)"
  by (simp add: flushOpen_def Let_def spacerInv_appendBlock)

lemma spacerInv_initial: "spacerInv initialState"
  by (simp add: spacerInv_def initialState_def noAdjacentSpacers_def)

lemma spacerInv_renderLines: "renderLines ls w = Inr bs \<Longrightarrow> (bs \<noteq> [] \<longrightarrow> hd bs \<noteq> Spacer) \<and> noAdjacentSpacers bs"
  using spacerInv_flushOpen [OF spacerInv_forEachLine [OF spacerInv_initial]]
  by (auto simp: renderLines_def spacerInv_def split: sum.splits)

lemma all_dropWhile_iff: "(\<forall>x\<in>set (dropWhile P l). P x) \<longleftrightarrow> (\<forall>x\<in>set l. P x)"
proof
  assume a: "\<forall>x\<in>set (dropWhile P l). P x"
  have "dropWhile P l = []"
  proof (rule ccontr)
    assume n: "dropWhile P l \<noteq> []"
    then have "\<not> P (hd (dropWhile P l))" by (rule hd_dropWhile)
    moreover have "hd (dropWhile P l) \<in> set (dropWhile P l)" using n by simp
    ultimately show False using a by blast
  qed
  then show "\<forall>x\<in>set l. P x" by (simp add: dropWhile_eq_Nil_conv)
next
  assume "\<forall>x\<in>set l. P x"
  then show "\<forall>x\<in>set (dropWhile P l). P x" by (auto dest: set_dropWhileD)
qed

lemma trim_Nil_iff: "trim l = [] \<longleftrightarrow> (\<forall>c\<in>set l. isSpace c)"
  by (simp add: trim_def dropWhile_eq_Nil_conv all_dropWhile_iff)

lemma takeWhile_Nil_blank:
  assumes "\<forall>c\<in>set l. isSpace c" and "\<And>c. P c \<Longrightarrow> \<not> isSpace c" and "set s \<subseteq> set l"
  shows "takeWhile P s = []"
proof (cases s)
  case Nil
  then show ?thesis by simp
next
  case (Cons a as)
  then have "isSpace a" using assms(1,3) by auto
  then have "\<not> P a" using assms(2) by blast
  then show ?thesis using Cons by simp
qed

lemma blank_codeFence: assumes "trim l = []" shows "codeFence l = None"
proof -
  have b: "\<forall>c\<in>set l. isSpace c" using assms by (simp add: trim_Nil_iff)
  let ?s1 = "dropWhile (\<lambda>c. c = ch CHR '' '') l"
  have sub: "set ?s1 \<subseteq> set l" by (auto dest: set_dropWhileD)
  have 1: "takeWhile (\<lambda>c. c = ch CHR ''`'') ?s1 = []"
    by (rule takeWhile_Nil_blank [OF b _ sub]) (simp add: isSpace_def ch_def)
  have 2: "takeWhile (\<lambda>c. c = ch CHR ''~'') ?s1 = []"
    by (rule takeWhile_Nil_blank [OF b _ sub]) (simp add: isSpace_def ch_def)
  show ?thesis by (simp add: codeFence_def Let_def 1 2)
qed

lemma blank_tableRow: "trim l = [] \<Longrightarrow> tableRow l = None"
  by (simp add: trim_Nil_iff tableRow_def dropWhile_eq_Nil_conv [THEN iffD2])

lemma sepCell_Nil: "sepCell [] = None"
  by (simp add: sepCell_def)

lemma blank_tableSeparator: "trim l = [] \<Longrightarrow> \<not> tableSeparator l"
  by (simp add: trim_Nil_iff tableSeparator_def dropWhile_eq_Nil_conv [THEN iffD2] sepCell_Nil)

lemma blank_header: assumes "trim l = []" shows "header l = None"
proof -
  have b: "\<forall>c\<in>set l. isSpace c" using assms by (simp add: trim_Nil_iff)
  let ?s1 = "dropWhile (\<lambda>c. c = ch CHR '' '') l"
  have sub: "set ?s1 \<subseteq> set l" by (auto dest: set_dropWhileD)
  have 1: "takeWhile (\<lambda>c. c = ch CHR ''#'') ?s1 = []"
    by (rule takeWhile_Nil_blank [OF b _ sub]) (simp add: isSpace_def ch_def)
  show ?thesis by (simp add: header_def Let_def 1)
qed

lemma blank_unorderedList: assumes "trim l = []" shows "unorderedList l = None"
proof -
  have b: "\<forall>c\<in>set l. isSpace c" using assms by (simp add: trim_Nil_iff)
  let ?s1 = "drop (length (takeWhile (\<lambda>c. c = ch CHR '' '' \<or> c = 9) l)) l"
  show ?thesis
  proof (cases ?s1)
    case Nil
    then show ?thesis by (simp add: unorderedList_def Let_def)
  next
    case (Cons m s2)
    then have "m \<in> set ?s1" by simp
    then have "m \<in> set l" by (rule in_set_dropD)
    then have "isSpace m" using b by blast
    then have "\<not> (m = ch CHR ''-'' \<or> m = ch CHR ''*'' \<or> m = ch CHR ''+'')"
      by (auto simp: isSpace_def ch_def)
    then show ?thesis using Cons by (simp add: unorderedList_def Let_def)
  qed
qed

lemma blank_orderedList: assumes "trim l = []" shows "orderedList l = None"
proof -
  have b: "\<forall>c\<in>set l. isSpace c" using assms by (simp add: trim_Nil_iff)
  let ?s1 = "drop (length (takeWhile (\<lambda>c. c = ch CHR '' '' \<or> c = 9) l)) l"
  have sub: "set ?s1 \<subseteq> set l" by (auto dest: in_set_dropD)
  have 1: "takeWhile isDigit ?s1 = []"
    by (rule takeWhile_Nil_blank [OF b _ sub]) (auto simp: isSpace_def isDigit_def ch_def)
  show ?thesis by (simp add: orderedList_def Let_def 1)
qed

lemma blank_hrScan: "\<forall>c\<in>set l. isSpace c \<Longrightarrow> hrScan l = None \<or> hrScan l = Some 0"
  by (induction l) (auto simp: isSpace_def ch_def)

lemma blank_horizontalRule: "trim l = [] \<Longrightarrow> \<not> horizontalRule l"
  using blank_hrScan [of l] by (auto simp: trim_Nil_iff horizontalRule_def)

lemmas blank_simps = blank_codeFence blank_tableRow blank_tableSeparator blank_header
  blank_unorderedList blank_orderedList blank_horizontalRule

lemma processLine_blank_normal:
  assumes "trim l = []" "\<not> codeBlockActive st" "\<not> tableActive st"
  shows "processLine w l n st =
           Inr (if previousLineWasEmpty st then st
                else st\<lparr>blocks := blocks st @ [Spacer], previousLineWasEmpty := True\<rparr>)"
  using assms by (simp add: processLine_def Let_def blank_simps)


lemma forEachLine_leading_blanks:
  assumes "\<forall>b\<in>set blanks. trim b = []"
  shows "forEachLine w (blanks @ rest) initialState = forEachLine w rest initialState"
  using assms
proof (induction blanks)
  case Nil
  then show ?case by simp
next
  case (Cons b bs)
  have f: "\<not> codeBlockActive initialState" "\<not> tableActive initialState"
    "previousLineWasEmpty initialState" by (simp_all add: initialState_def)
  have "trim b = []" using Cons.prems by simp
  then have "processLine w b n initialState = Inr initialState" for n
    using f by (simp add: processLine_blank_normal)
  then show ?case using Cons by simp
qed

lemma takeWhile_eq_replicate:
  "takeWhile (\<lambda>c. c = x) s = replicate (length (takeWhile (\<lambda>c. c = x) s)) x"
  by (induction s) auto

lemma splitLines_not_Nil: "splitLines t \<noteq> []"
  by (induction t) (auto split: list.splits)

lemma forEachLine_inside:
  assumes "codeBlockActive st" and "\<forall>l\<in>set ls. \<not> closesFence (codeBlockFence st) l"
  shows "forEachLine w (ls @ rest) st = forEachLine w rest (st\<lparr>codeBlockLines := codeBlockLines st @ ls\<rparr>)"
  using assms
proof (induction ls arbitrary: st)
  case Nil
  then show ?case by simp
next
  case (Cons l ls)
  let ?st = "st\<lparr>codeBlockLines := codeBlockLines st @ [l]\<rparr>"
  have step: "processLine w l n st = Inr ?st" for n
    using Cons.prems by (simp add: processLine_def insideCodeBlock_def)
  have "forEachLine w (ls @ rest) ?st = forEachLine w rest (?st\<lparr>codeBlockLines := codeBlockLines ?st @ ls\<rparr>)"
    by (rule Cons.IH) (use Cons.prems in simp_all)
  then show ?case using step by simp
qed

lemma codeFence_unfold:
  fixes l :: jsstring
  defines "s1 \<equiv> dropWhile (\<lambda>c. c = ch CHR '' '') l"
  defines "ticks \<equiv> takeWhile (\<lambda>c. c = ch CHR ''`'') s1"
  defines "tildes \<equiv> takeWhile (\<lambda>c. c = ch CHR ''~'') s1"
  defines "fence \<equiv> (if 3 \<le> length ticks then ticks else tildes)"
  defines "s2 \<equiv> dropWhile (\<lambda>c. c = ch CHR '' '') (drop (length fence) s1)"
  defines "r2 \<equiv> drop (length (takeWhile isWord s2)) s2"
  shows "codeFence l =
      (if 3 \<le> length fence \<and> dropWhile (\<lambda>c. c = ch CHR '' '') r2 = []
       then Some (fence, takeWhile isWord s2) else None)"
  unfolding codeFence_def Let_def s1_def ticks_def tildes_def fence_def s2_def r2_def
  by (rule refl)

lemma fence_shape:
  assumes "codeFence l = Some (f, lang)"
  shows "3 \<le> length f \<and> (f = replicate (length f) (ch CHR ''`'') \<or> f = replicate (length f) (ch CHR ''~''))"
proof -
  define s1 where "s1 = dropWhile (\<lambda>c. c = ch CHR '' '') l"
  define ticks where "ticks = takeWhile (\<lambda>c. c = ch CHR ''`'') s1"
  define tildes where "tildes = takeWhile (\<lambda>c. c = ch CHR ''~'') s1"
  define fence where "fence = (if 3 \<le> length ticks then ticks else tildes)"
  define s2 where "s2 = dropWhile (\<lambda>c. c = ch CHR '' '') (drop (length fence) s1)"
  define r2 where "r2 = drop (length (takeWhile isWord s2)) s2"
  define cond where "cond \<longleftrightarrow> dropWhile (\<lambda>c. c = ch CHR '' '') r2 = []"
  have unf: "codeFence l = (if 3 \<le> length fence \<and> cond then Some (fence, takeWhile isWord s2) else None)"
    unfolding cond_def r2_def s2_def fence_def tildes_def ticks_def s1_def by (rule codeFence_unfold)
  have 1: "f = fence \<and> 3 \<le> length f"
    using assms unfolding unf by (cases "3 \<le> length fence \<and> cond") auto
  have 2: "ticks = replicate (length ticks) (ch CHR ''`'')"
    unfolding ticks_def by (rule takeWhile_eq_replicate)
  have 3: "tildes = replicate (length tildes) (ch CHR ''~'')"
    unfolding tildes_def by (rule takeWhile_eq_replicate)
  have "fence = ticks \<or> fence = tildes" by (simp add: fence_def)
  then show ?thesis using 1 2 3 by metis
qed

lemma closesFence_iff:
  assumes "codeFence opening = Some (f, lang)" and "codeFence l = Some (f', lang')"
  shows "closesFence f l \<longleftrightarrow> hd f' = hd f \<and> length f \<le> length f'"
proof -
  have "f \<noteq> []" "f' \<noteq> []" using fence_shape [OF assms(1)] fence_shape [OF assms(2)] by auto
  then have "take 1 f = [hd f]" "take 1 f' = [hd f']" by (simp_all add: take_Suc)
  then show ?thesis using assms(2) by (simp add: closesFence_def)
qed

lemma processLine_inside:
  "codeBlockActive st \<Longrightarrow> processLine w l n st = Inr (insideCodeBlock w l st)"
  by (simp add: processLine_def)

lemma processLine_fence_open:
  assumes "codeFence l = Some (f, lang)" "\<not> codeBlockActive st"
  shows "processLine w l n st =
     Inr (st\<lparr>codeBlockActive := True, codeBlockFence := f,
             codeBlockLanguage := (if lang = [] then None else Some lang)\<rparr>)"
  using assms by (simp add: processLine_def Let_def)

lemma fence_roundtrip_lines:
  assumes op: "codeFence opening = Some (f, lang)"
    and inner: "\<forall>l\<in>set interior. \<not> closesFence f l"
    and cl: "closesFence f closing"
  shows "renderLines (opening # interior @ [closing]) w =
           Inr [CodeBlock interior (if lang = [] then None else Some lang) w]"
proof -
  define language where "language = (if lang = [] then None else Some lang)"
  define st1 where "st1 = initialState\<lparr>codeBlockActive := True, codeBlockFence := f,
                 codeBlockLanguage := language\<rparr>"
  define st2 where "st2 = st1\<lparr>codeBlockLines := codeBlockLines st1 @ interior\<rparr>"
  have i: "\<not> codeBlockActive initialState" by (simp add: initialState_def)
  have 1: "processLine w opening n initialState = Inr st1" for n
    unfolding st1_def language_def by (rule processLine_fence_open [OF op i])
  have a1: "codeBlockActive st1" "codeBlockFence st1 = f" by (simp_all add: st1_def)
  have 2: "forEachLine w (interior @ [closing]) st1 = forEachLine w [closing] st2"
    unfolding st2_def by (rule forEachLine_inside) (use inner a1 in simp_all)
  have a2: "codeBlockActive st2" "codeBlockFence st2 = f" "codeBlockLines st2 = interior"
    "codeBlockLanguage st2 = language" "blocks st2 = []" "\<not> tableActive st2"
    by (simp_all add: st2_def st1_def initialState_def)
  have 3: "processLine w closing None st2 = Inr (insideCodeBlock w closing st2)"
    using a2(1) by (rule processLine_inside)
  have run: "forEachLine w (opening # interior @ [closing]) initialState =
               Inr (insideCodeBlock w closing st2)"
    using 1 2 3 by simp
  have 4: "blocks (flushOpen w (insideCodeBlock w closing st2)) = [CodeBlock interior language w]"
    using cl a2 by (simp add: insideCodeBlock_def appendBlock_def flushOpen_def)
  show ?thesis unfolding renderLines_def run language_def [symmetric] using 4 by simp
qed

lemma set_subset_dropWhile: "x \<in> set xs \<Longrightarrow> P x \<or> x \<in> set (dropWhile P xs)"
proof -
  assume "x \<in> set xs"
  moreover have "set xs = set (takeWhile P xs) \<union> set (dropWhile P xs)"
    by (metis set_append takeWhile_dropWhile_id)
  ultimately show ?thesis by (auto dest: set_takeWhileD)
qed

lemma codeFence_chars:
  assumes "codeFence l = Some (f, lang)" and "x \<in> set l"
  shows "x = ch CHR '' '' \<or> x = ch CHR ''`'' \<or> x = ch CHR ''~'' \<or> isWord x"
proof -
  define s1 where "s1 = dropWhile (\<lambda>c. c = ch CHR '' '') l"
  define ticks where "ticks = takeWhile (\<lambda>c. c = ch CHR ''`'') s1"
  define tildes where "tildes = takeWhile (\<lambda>c. c = ch CHR ''~'') s1"
  define fence where "fence = (if 3 \<le> length ticks then ticks else tildes)"
  define r1 where "r1 = drop (length fence) s1"
  define s2 where "s2 = dropWhile (\<lambda>c. c = ch CHR '' '') r1"
  define r2 where "r2 = drop (length (takeWhile isWord s2)) s2"
  define cond where "cond \<longleftrightarrow> dropWhile (\<lambda>c. c = ch CHR '' '') r2 = []"
  have unf: "codeFence l = (if 3 \<le> length fence \<and> cond then Some (fence, takeWhile isWord s2) else None)"
    unfolding cond_def r2_def s2_def r1_def fence_def tildes_def ticks_def s1_def
    by (rule codeFence_unfold)
  have "cond" using assms(1) unfolding unf by (cases "3 \<le> length fence \<and> cond") auto
  then have e: "\<forall>y\<in>set r2. y = ch CHR '' ''"
    unfolding cond_def by (simp only: dropWhile_eq_Nil_conv)
  have r2: "r2 = dropWhile isWord s2" unfolding r2_def by (rule dropWhile_eq_drop [symmetric])
  have r1: "r1 = dropWhile (\<lambda>c. c = ch CHR ''`'') s1 \<or> r1 = dropWhile (\<lambda>c. c = ch CHR ''~'') s1"
  proof (cases "3 \<le> length ticks")
    case True
    then have "r1 = drop (length ticks) s1" by (simp add: r1_def fence_def)
    then show ?thesis unfolding ticks_def by (simp only: dropWhile_eq_drop [symmetric]) simp
  next
    case False
    then have "r1 = drop (length tildes) s1" by (simp add: r1_def fence_def)
    then show ?thesis unfolding tildes_def by (simp only: dropWhile_eq_drop [symmetric]) simp
  qed
  have B: "isWord x \<or> x = ch CHR '' ''" if "x \<in> set s2"
    using set_subset_dropWhile [OF that, of isWord] e r2 by blast
  have C: "isWord x \<or> x = ch CHR '' ''" if "x \<in> set r1"
    using set_subset_dropWhile [OF that, of "\<lambda>c. c = ch CHR '' ''"] B unfolding s2_def by blast
  have D: "x = ch CHR ''`'' \<or> x = ch CHR ''~'' \<or> isWord x \<or> x = ch CHR '' ''" if a: "x \<in> set s1"
    using r1
  proof
    assume r: "r1 = dropWhile (\<lambda>c. c = ch CHR ''`'') s1"
    from set_subset_dropWhile [OF a, of "\<lambda>c. c = ch CHR ''`''"] show ?thesis
      using C unfolding r by blast
  next
    assume r: "r1 = dropWhile (\<lambda>c. c = ch CHR ''~'') s1"
    from set_subset_dropWhile [OF a, of "\<lambda>c. c = ch CHR ''~''"] show ?thesis
      using C unfolding r by blast
  qed
  from set_subset_dropWhile [OF assms(2), of "\<lambda>c. c = ch CHR '' ''"] show ?thesis
    using D unfolding s1_def by blast
qed

lemma tableRow_pipe: assumes "tableRow l = Some g" shows "ch CHR ''|'' \<in> set l"
proof (cases "dropWhile isSpace l")
  case Nil
  show ?thesis using assms unfolding tableRow_def Nil by simp
next
  case (Cons c r)
  define body where "body = rev (dropWhile isSpace (rev r))"
  define ok where "ok \<longleftrightarrow> body \<noteq> [] \<and> last body = ch CHR ''|'' \<and> butlast body \<noteq> [] \<and>
              list_all (\<lambda>x. \<not> isLineTerminator x) (butlast body)"
  have "tableRow l = (if c = ch CHR ''|'' \<and> ok then Some (butlast body) else None)"
    unfolding tableRow_def Cons ok_def body_def by (simp add: Let_def)
  then have "c = ch CHR ''|''" using assms by (cases "c = ch CHR ''|'' \<and> ok") auto
  then have "ch CHR ''|'' \<in> set (dropWhile isSpace l)" using Cons by simp
  then show ?thesis by (rule set_dropWhileD)
qed

lemma row_not_fence: assumes "tableRow l = Some g" shows "codeFence l = None"
proof (rule ccontr)
  assume "codeFence l \<noteq> None"
  then obtain f lang where "codeFence l = Some (f, lang)" by auto
  from codeFence_chars [OF this tableRow_pipe [OF assms]] show False
    by (simp add: ch_def isWord_def isDigit_def)
qed

lemma sepCell_dash: assumes "sepCell s = Some r" shows "ch CHR ''-'' \<in> set s"
proof -
  define s1 where "s1 = (if take 1 s = [ch CHR '':''] then drop 1 s else s)"
  define dashes where "dashes = takeWhile (\<lambda>c. c = ch CHR ''-'') s1"
  define s2 where "s2 = drop (length dashes) s1"
  have "sepCell s = (if dashes = [] then None
         else Some (if take 1 s2 = [ch CHR '':''] then drop 1 s2 else s2))"
    unfolding sepCell_def Let_def s2_def dashes_def s1_def by (rule refl)
  then have "dashes \<noteq> []" using assms by (cases "dashes = []") auto
  then obtain y where y: "y \<in> set dashes" by (meson last_in_set)
  then have "y = ch CHR ''-''" "y \<in> set s1" unfolding dashes_def by (auto dest: set_takeWhileD)
  moreover have "set s1 \<subseteq> set s" unfolding s1_def by (auto dest: in_set_dropD)
  ultimately show ?thesis by blast
qed

lemma tableSeparator_dash: assumes "tableSeparator l" shows "ch CHR ''-'' \<in> set l"
proof -
  define s0 where "s0 = dropWhile isSpace l"
  define s0' where "s0' = (if take 1 s0 = [ch CHR ''|''] then drop 1 s0 else s0)"
  define s1 where "s1 = dropWhile isSpace s0'"
  have unf: "tableSeparator l = (case sepCell s1 of None \<Rightarrow> False
         | Some s2 \<Rightarrow>
             (case sepGroups (dropWhile isSpace s2) of
                (n, s3) \<Rightarrow>
                  1 \<le> n \<and>
                  dropWhile isSpace (if take 1 s3 = [ch CHR ''|''] then drop 1 s3 else s3) = []))"
    unfolding tableSeparator_def Let_def s1_def s0'_def s0_def by (rule refl)
  have "sepCell s1 \<noteq> None" using assms unfolding unf by (cases "sepCell s1") auto
  then obtain r where "sepCell s1 = Some r" by auto
  then have "ch CHR ''-'' \<in> set s1" by (rule sepCell_dash)
  then have "ch CHR ''-'' \<in> set s0'" unfolding s1_def by (rule set_dropWhileD)
  moreover have "set s0' \<subseteq> set s0" unfolding s0'_def by (auto dest: in_set_dropD)
  ultimately have "ch CHR ''-'' \<in> set s0" by blast
  then show ?thesis unfolding s0_def by (rule set_dropWhileD)
qed

lemma separator_not_fence: assumes "tableSeparator l" shows "codeFence l = None"
proof (rule ccontr)
  assume "codeFence l \<noteq> None"
  then obtain f lang where "codeFence l = Some (f, lang)" by auto
  from codeFence_chars [OF this tableSeparator_dash [OF assms]] show False
    by (simp add: ch_def isWord_def isDigit_def)
qed

lemma processLine_separator_in_table:
  assumes "tableSeparator l" "tableActive st" "\<not> codeBlockActive st"
  shows "processLine w l n st = Inr st"
  using assms by (simp add: processLine_def Let_def separator_not_fence)

lemma forEachLine_separators:
  assumes "\<forall>l\<in>set ls. tableSeparator l" "tableActive st" "\<not> codeBlockActive st"
  shows "forEachLine w ls st = Inr st"
  using assms by (induction ls) (simp_all add: processLine_separator_in_table)

lemma processLine_table_start:
  assumes "tableRow l = Some g" "tableSeparator nxt" "\<not> tableActive st" "\<not> codeBlockActive st"
  shows "processLine w l (Some nxt) st =
           Inr (st\<lparr>tableActive := True, tableHeaderCells := rowCells g, tableDataRows := []\<rparr>)"
  using assms by (simp add: processLine_def Let_def row_not_fence)

lemma processLine_row_paragraph:
  assumes "tableRow l = Some g" "\<not> (case n of Some nxt \<Rightarrow> tableSeparator nxt | None \<Rightarrow> False)"
    "\<not> tableActive st" "\<not> codeBlockActive st"
  shows "processLine w l n st = Inr (appendBlock (Paragraph l) st)"
  using assms by (simp add: processLine_def Let_def row_not_fence)

lemma processLine_data_row:
  assumes "tableRow l = Some g" "\<not> tableSeparator l" "tableActive st" "\<not> codeBlockActive st"
  shows "processLine w l n st =
           Inr (st\<lparr>tableDataRows := tableDataRows st @
                   [coerceCells (length (tableHeaderCells st)) (rowCells g)]\<rparr>)"
  using assms by (simp add: processLine_def Let_def row_not_fence)

lemma initialState_simps:
  "blocks initialState = []" "previousLineWasEmpty initialState"
  "\<not> codeBlockActive initialState" "\<not> tableActive initialState"
  "codeBlockLines initialState = []" "tableDataRows initialState = []"
  by (simp_all add: initialState_def)

lemma header_without_rows:
  assumes "tableRow hdr = Some g" "tableSeparator sep" "\<forall>l\<in>set seps. tableSeparator l"
  shows "renderLines (hdr # sep # seps) w = Inr []"
proof -
  define st where "st = initialState\<lparr>tableActive := True, tableHeaderCells := rowCells g, tableDataRows := []\<rparr>"
  have 1: "processLine w hdr (Some sep) initialState = Inr st"
    unfolding st_def by (rule processLine_table_start) (use assms in \<open>simp_all add: initialState_simps\<close>)
  have a: "tableActive st" "\<not> codeBlockActive st" "tableDataRows st = []" "blocks st = []"
    by (simp_all add: st_def initialState_simps)
  have 2: "forEachLine w (sep # seps) st = Inr st"
    by (rule forEachLine_separators) (use assms a in simp_all)
  have run: "forEachLine w (hdr # sep # seps) initialState = Inr st"
    using 1 2 by simp
  have "blocks (flushOpen w st) = []" using a by (simp add: flushOpen_def)
  then show ?thesis unfolding renderLines_def run by simp
qed

lemma tableEnd_blocks:
  "blocks (tableEnd w l st) =
     blocks st @
     (if tableHeaderCells st \<noteq> [] \<and> tableDataRows st \<noteq> []
      then [Table (tableHeaderCells st) (tableDataRows st) w] else []) @
     (if trim l \<noteq> [] then [Paragraph l] else [])"
  by (simp add: tableEnd_def Let_def appendBlock_def)

lemma processLine_blocks_prefix:
  assumes "processLine w l n st = Inr st'"
  shows "\<exists>bs. blocks st' = blocks st @ bs"
proof (cases "codeBlockActive st")
  case True
  then have "st' = insideCodeBlock w l st" using assms by (simp add: processLine_inside)
  then show ?thesis by (simp add: insideCodeBlock_def appendBlock_def)
next
  case False
  from processLine_normal_cases [OF assms False] show ?thesis
    by (auto simp: emits_def appendBlock_def tableEnd_blocks)
qed

lemma forEachLine_blocks_prefix:
  "forEachLine w ls st = Inr st' \<Longrightarrow> \<exists>bs. blocks st' = blocks st @ bs"
proof (induction ls arbitrary: st)
  case Nil
  then show ?case by simp
next
  case (Cons l ls)
  then obtain st1 where 1: "processLine w l (case ls of [] \<Rightarrow> None | n # _ \<Rightarrow> Some n) st = Inr st1"
    and 2: "forEachLine w ls st1 = Inr st'"
    by (auto split: sum.splits)
  from processLine_blocks_prefix [OF 1] Cons.IH [OF 2] show ?case by auto
qed

lemma flushOpen_blocks_prefix: "\<exists>bs. blocks (flushOpen w st) = blocks st @ bs"
  by (simp add: flushOpen_def Let_def appendBlock_def)

lemma row_without_separator:
  assumes "tableRow hdr = Some g" "rest = [] \<or> \<not> tableSeparator (hd rest)"
    "renderLines (hdr # rest) w = Inr bs"
  shows "\<exists>bs'. bs = Paragraph hdr # bs'"
proof -
  define n where "n = (case rest of [] \<Rightarrow> None | n # _ \<Rightarrow> Some n)"
  have n: "\<not> (case n of Some nxt \<Rightarrow> tableSeparator nxt | None \<Rightarrow> False)"
    using assms(2) unfolding n_def by (cases rest) auto
  have 1: "processLine w hdr n initialState = Inr (appendBlock (Paragraph hdr) initialState)"
    by (rule processLine_row_paragraph [OF assms(1) n]) (simp_all add: initialState_simps)
  from assms(3) obtain st where st: "forEachLine w (hdr # rest) initialState = Inr st"
    and bs: "bs = blocks (flushOpen w st)"
    by (auto simp: renderLines_def split: sum.splits)
  from st 1 have "forEachLine w rest (appendBlock (Paragraph hdr) initialState) = Inr st"
    by (simp add: n_def)
  from forEachLine_blocks_prefix [OF this] obtain xs where "blocks st = [Paragraph hdr] @ xs"
    by (auto simp: appendBlock_def initialState_simps)
  with flushOpen_blocks_prefix [of w st] bs show ?thesis by auto
qed

lemmas eval_defs = js_def ch_def LF_def CR_def isSpace_def isLineTerminator_def isDigit_def
  isWord_def trim_def repeat_def codeFence_def header_def unorderedList_def orderedList_def
  horizontalRule_def tableRow_def sepCell_def tableSeparator_def initialState_def appendBlock_def
  rowCells_def coerceCells_def closesFence_def insideCodeBlock_def tableEnd_def processLine_def
  flushOpen_def renderLines_def renderMarkdown_def Let_def

lemma processLine_error: assumes "processLine w l n st = Inl e" shows "w < 4"
proof (rule ccontr)
  assume "\<not> w < 4"
  then have r: "repeat [0x2500] (min 40 (w - 4)) = Inr (concat (replicate (nat (min 40 (w - 4))) [0x2500]))"
    by (simp add: repeat_def)
  show False using assms unfolding processLine_def Let_def r
    by (simp split: if_splits prod.splits)
qed

lemma forEachLine_error: "forEachLine w ls st = Inl e \<Longrightarrow> w < 4"
proof (induction ls arbitrary: st)
  case Nil
  then show ?case by simp
next
  case (Cons l ls)
  then show ?case by (auto split: sum.splits dest: processLine_error)
qed

lemma renderLines_error: "renderLines ls w = Inl e \<Longrightarrow> w < 4"
  by (auto simp: renderLines_def split: sum.splits dest: forEachLine_error)

lemma processLine_nonblank_normal:
  assumes "trim l \<noteq> []" "\<not> codeBlockActive st" "\<not> tableActive st" "processLine w l n st = Inr st'"
  shows "\<exists>bs. blocks st' = blocks st @ bs \<and> length bs \<le> 1 \<and> Spacer \<notin> set bs"
proof -
  from processLine_normal_cases [OF assms(4) assms(2)] assms(1,3)
  have "emits st st' \<or> blocks st' = blocks st" by auto
  then show ?thesis
  proof
    assume "emits st st'"
    then obtain b where "b \<noteq> Spacer" "st' = appendBlock b st" by (auto simp: emits_def)
    then have "blocks st' = blocks st @ [b] \<and> length [b] \<le> 1 \<and> Spacer \<notin> set [b]"
      by (simp add: appendBlock_def)
    then show ?thesis by blast
  next
    assume "blocks st' = blocks st"
    then have "blocks st' = blocks st @ [] \<and> length ([]::block list) \<le> 1 \<and> Spacer \<notin> set []" by simp
    then show ?thesis by blast
  qed
qed


lemma processLine_spacer_only_after_block:
  assumes "processLine w l n st = Inr st'"
  shows "\<exists>bs. blocks st' = blocks st @ bs \<and> (Spacer \<in> set bs \<longrightarrow> \<not> previousLineWasEmpty st \<and> bs = [Spacer])"
proof (cases "codeBlockActive st")
  case True
  then have "st' = insideCodeBlock w l st" using assms by (simp add: processLine_inside)
  then show ?thesis by (simp add: insideCodeBlock_def appendBlock_def)
next
  case False
  from processLine_normal_cases [OF assms False] show ?thesis
    by (auto simp: emits_def appendBlock_def tableEnd_blocks)
qed

lemma renderMarkdown_lines:
  "text \<noteq> [] \<Longrightarrow> renderMarkdown text w =
     (case renderLines (splitLines text) w of Inl e \<Rightarrow> Inl e | Inr bs \<Rightarrow> Inr (Some bs))"
  by (simp add: renderMarkdown_def)

lemma closesFence_ex:
  assumes "codeFence opening = Some (f, lang)"
  shows "closesFence f l \<longleftrightarrow>
           (\<exists>f' lang'. codeFence l = Some (f', lang') \<and> hd f' = hd f \<and> length f \<le> length f')"
proof (cases "codeFence l")
  case None
  then show ?thesis by (simp add: closesFence_def)
next
  case (Some p)
  obtain f' lang' where p: "p = (f', lang')" by (cases p)
  from closesFence_iff [OF assms Some [unfolded p]] Some p show ?thesis by simp
qed

lemma insideCodeBlock_effect:
  "codeBlockActive (insideCodeBlock w l st) \<longleftrightarrow> codeBlockActive st \<and> \<not> closesFence (codeBlockFence st) l"
  "closesFence (codeBlockFence st) l \<Longrightarrow>
     blocks (insideCodeBlock w l st) = blocks st @ [CodeBlock (codeBlockLines st) (codeBlockLanguage st) w]"
  "\<not> closesFence (codeBlockFence st) l \<Longrightarrow>
     codeBlockLines (insideCodeBlock w l st) = codeBlockLines st @ [l] \<and>
     blocks (insideCodeBlock w l st) = blocks st"
  by (simp_all add: insideCodeBlock_def appendBlock_def)

lemma zero_rows_no_table:
  assumes "tableDataRows st = []" "\<not> codeBlockActive st"
  shows "blocks (flushOpen w st) = blocks st"
    and "blocks (tableEnd w l st) = blocks st @ (if trim l \<noteq> [] then [Paragraph l] else [])"
  using assms by (simp_all add: flushOpen_def tableEnd_blocks)

text \<open>The only exception is the RangeError of the horizontal rule, at widths below 4.\<close>

lemma renderMarkdown_error: "renderMarkdown input w = Inl e \<Longrightarrow> w < 4"
  by (auto simp: renderMarkdown_def split: if_splits sum.splits dest: renderLines_error)






section \<open>Lemmas about the width calculation\<close>

lemmas width_defs = js_def ch_def isLineTerminator_def plainText_def calculateTextWidth_def
  isWide_def buildCell_def Let_def

lemmas inline_defs = js_def ch_def isLineTerminator_def isSpace_def isWord_def isDigit_def
  hasTrigger_def delimited_def linkParts_def codeBody_def codeSpan_def bareUrl_def orElse_def
  matchAt_def startsWith_def endsWith_def slice_def codePattern_def formatMatch_def
  ProcessInlineText_def Let_def

lemma replaceDelimited_absent:
  assumes "opn \<noteq> []" "hd opn \<notin> set s"
  shows "replaceDelimited opn cls s = s"
  using assms
proof (induction s)
  case Nil
  then show ?case by simp
next
  case (Cons c cs)
  have "take (length opn) (c # cs) \<noteq> opn"
  proof
    assume "take (length opn) (c # cs) = opn"
    then have "hd opn = hd (take (length opn) (c # cs))" by simp
    also have "\<dots> = c" using Cons.prems(1) by (cases opn) simp_all
    finally show False using Cons.prems(2) by simp
  qed
  then show ?case using Cons by simp
qed

lemma linkAt_absent: "ch CHR ''['' \<notin> set s \<Longrightarrow> linkAt s = None"
  by (induction s) simp_all

lemma replaceLinks_absent: "ch CHR ''['' \<notin> set s \<Longrightarrow> replaceLinks s = s"
  by (induction s) (simp_all add: linkAt_absent)

lemma plainText_absent:
  assumes "\<forall>c\<in>set s. c \<notin> {ch CHR ''*'', ch CHR ''_'', ch CHR ''~'', ch CHR ''`'', ch CHR ''<'', ch CHR ''[''}"
  shows "plainText s = s"
proof -
  have h: "hd (js ''**'') \<notin> set s" "hd (js ''*'') \<notin> set s" "hd (js ''_'') \<notin> set s"
    "hd (js ''~~'') \<notin> set s" "hd (js ''`'') \<notin> set s" "hd (js ''<u>'') \<notin> set s"
    "ch CHR ''['' \<notin> set s"
    using assms by (auto simp: js_def)
  have n: "js ''**'' \<noteq> []" "js ''*'' \<noteq> []" "js ''_'' \<noteq> []" "js ''~~'' \<noteq> []"
    "js ''`'' \<noteq> []" "js ''<u>'' \<noteq> []"
    by (simp_all add: js_def)
  show ?thesis unfolding plainText_def
    by (simp only: replaceDelimited_absent [OF n(1) h(1)] replaceDelimited_absent [OF n(2) h(2)]
        replaceDelimited_absent [OF n(3) h(3)] replaceDelimited_absent [OF n(4) h(4)]
        replaceDelimited_absent [OF n(5) h(5)] replaceDelimited_absent [OF n(6) h(6)]
        replaceLinks_absent [OF h(7)])
qed

lemma widthLoop_no_surrogate:
  "\<forall>c\<in>set s. \<not> (0xD800 \<le> c \<and> c \<le> 0xDBFF) \<Longrightarrow>
   widthLoop s = (\<Sum>c\<leftarrow>s. if isWide c then 2 else 1)"
  by (induction s rule: widthLoop.induct) auto

text \<open>The width of a run of the Hangul syllable U+D55C, alone and followed by three dots.\<close>

lemma width_hangul_run:
  "calculateTextWidth (replicate n 0xD55C @ js ''...'') = 2 * int n + 3"
  "calculateTextWidth (replicate n 0xD55C) = 2 * int n"
proof -
  have a: "\<forall>c\<in>set (replicate n 0xD55C @ js ''...''). c \<notin> {ch CHR ''*'', ch CHR ''_'', ch CHR ''~'', ch CHR ''`'', ch CHR ''<'', ch CHR ''[''}"
    by (auto simp: js_def ch_def)
  have b: "\<forall>c\<in>set (replicate n 0xD55C @ js ''...''). \<not> (0xD800 \<le> c \<and> c \<le> 0xDBFF)"
    by (auto simp: js_def ch_def)
  have w: "isWide 0xD55C" "\<not> isWide (ch CHR ''.'')" by (simp_all add: isWide_def ch_def)
  show "calculateTextWidth (replicate n 0xD55C @ js ''...'') = 2 * int n + 3"
    unfolding calculateTextWidth_def plainText_absent [OF a] widthLoop_no_surrogate [OF b]
    by (simp add: js_def w sum_list_replicate)
  have a': "\<forall>c\<in>set (replicate n (0xD55C::nat)). c \<notin> {ch CHR ''*'', ch CHR ''_'', ch CHR ''~'', ch CHR ''`'', ch CHR ''<'', ch CHR ''[''}"
    by (auto simp: ch_def)
  have b': "\<forall>c\<in>set (replicate n (0xD55C::nat)). \<not> (0xD800 \<le> c \<and> c \<le> 0xDBFF)"
    by auto
  show "calculateTextWidth (replicate n 0xD55C) = 2 * int n"
    unfolding calculateTextWidth_def plainText_absent [OF a'] widthLoop_no_surrogate [OF b']
    by (simp add: w sum_list_replicate)
qed

section \<open>The claims\<close>

text \<open>
  Claim C1. In the table state, a line that is neither a row nor a separator should close
  the table and then be classified again by the rules of the normal state. The
  \<open>// Table end\<close> branch closes the table and pushes the line as a paragraph whenever
  it is not blank: an ATX header, a horizontal rule and a list item that follow the data
  rows of a table all come out as \<open>Paragraph\<close> with their raw text, while the same
  three lines without a table above them come out as \<open>Header\<close>, \<open>HorizontalRule\<close>
  and \<open>ListItem\<close>.
\<close>

theorem table_end_line_is_paragraph: "renderMarkdown (js ''| A | B |\<newline>| - | - |\<newline>| 1 | 2 |\<newline># Title'') 80 =
     Inr (Some [Table [js ''A'', js ''B''] [[js ''1'', js ''2'']] 80, Paragraph (js ''# Title'')])
  \<and> renderMarkdown (js ''| A | B |\<newline>| - | - |\<newline>| 1 | 2 |\<newline>---'') 80 =
     Inr (Some [Table [js ''A'', js ''B''] [[js ''1'', js ''2'']] 80, Paragraph (js ''---'')])
  \<and> renderMarkdown (js ''| A | B |\<newline>| - | - |\<newline>| 1 | 2 |\<newline>- item'') 80 =
     Inr (Some [Table [js ''A'', js ''B''] [[js ''1'', js ''2'']] 80, Paragraph (js ''- item'')])
  \<and> renderMarkdown (js ''# Title\<newline>---\<newline>- item'') 80 =
     Inr (Some [Header 1 (js ''Title''), HorizontalRule (replicate 40 0x2500),
                ListItem UL (js ''-'') [] (js ''item'')])"
  by (simp add: eval_defs)


text \<open>
  Claim C2. Blocks should come out in source order, a table that precedes a code fence in
  particular before the code block. The fence branch comes first in the chain and leaves
  \<open>tableActive\<close> set, so the open table is only flushed after the code block: here the
  \<open>CodeBlock\<close> precedes the \<open>Table\<close> whose rows precede the fence in the text.
\<close>

theorem table_emitted_after_code_block: "renderMarkdown (js ''| A | B |\<newline>| - | - |\<newline>| 1 | 2 |\<newline>```\<newline>code\<newline>```'') 80 =
     Inr (Some [CodeBlock [js ''code''] None 80, Table [js ''A'', js ''B''] [[js ''1'', js ''2'']] 80])"
  by (simp add: eval_defs)


text \<open>
  Claim C4. \<open>renderMarkdown\<close> should return for every text and every positive width. For
  the text \<open>---\<close> and the width 3 the count of the rule's \<open>repeat\<close> is
  \<open>min 40 (3 - 4) = -1\<close> and the call throws a RangeError.
\<close>

theorem horizontal_rule_throws_at_width_3:
  "renderMarkdown (js ''---'') 3 = Inl RangeError \<and>
   renderMarkdown (js ''---'') 1 = Inl RangeError \<and>
   renderMarkdown (js ''---'') 80 = Inr (Some [HorizontalRule (replicate 40 0x2500)])"
  by (simp add: eval_defs)

text \<open>
  Claim C9. The blocks never begin with a spacer and never hold two spacers side by side:
  the flag \<open>previousLineWasEmpty\<close> is set at the start, a line appends a spacer only when
  the flag is clear and then appends nothing else, and blank lines at the start of the
  text produce no block (the text renders as the lines after them do).
\<close>

theorem spacers_collapse:
  "(renderMarkdown input w = Inr (Some bs) \<longrightarrow>
      (bs \<noteq> [] \<longrightarrow> hd bs \<noteq> Spacer) \<and>
      (\<forall>i. Suc i < length bs \<longrightarrow> \<not> (bs ! i = Spacer \<and> bs ! Suc i = Spacer))) \<and>
   previousLineWasEmpty initialState \<and>
   (processLine w l n st = Inr st' \<longrightarrow>
      (\<exists>new. blocks st' = blocks st @ new \<and>
         (Spacer \<in> set new \<longrightarrow> \<not> previousLineWasEmpty st \<and> new = [Spacer]))) \<and>
   (input \<noteq> [] \<and> splitLines input = blanks @ rest \<and> (\<forall>b\<in>set blanks. trim b = []) \<longrightarrow>
      renderMarkdown input w =
        (case renderLines rest w of Inl e \<Rightarrow> Inl e | Inr bs' \<Rightarrow> Inr (Some bs')))"
proof -
  have 1: "(bs \<noteq> [] \<longrightarrow> hd bs \<noteq> Spacer) \<and>
      (\<forall>i. Suc i < length bs \<longrightarrow> \<not> (bs ! i = Spacer \<and> bs ! Suc i = Spacer))"
    if r: "renderMarkdown input w = Inr (Some bs)"
  proof -
    from r have "input \<noteq> []" by (auto simp: renderMarkdown_def)
    with r have "renderLines (splitLines input) w = Inr bs"
      by (simp add: renderMarkdown_lines split: sum.splits)
    from spacerInv_renderLines [OF this] show ?thesis
      by (simp add: noAdjacentSpacers_def)
  qed
  have 2: "previousLineWasEmpty initialState" by (simp add: initialState_simps)
  have 3: "\<exists>new. blocks st' = blocks st @ new \<and>
         (Spacer \<in> set new \<longrightarrow> \<not> previousLineWasEmpty st \<and> new = [Spacer])"
    if "processLine w l n st = Inr st'"
    using that by (rule processLine_spacer_only_after_block)
  have 4: "renderMarkdown input w =
        (case renderLines rest w of Inl e \<Rightarrow> Inl e | Inr bs' \<Rightarrow> Inr (Some bs'))"
    if a: "input \<noteq> [] \<and> splitLines input = blanks @ rest \<and> (\<forall>b\<in>set blanks. trim b = [])"
  proof -
    from a have "forEachLine w (splitLines input) initialState = forEachLine w rest initialState"
      by (simp add: forEachLine_leading_blanks)
    then have "renderLines (splitLines input) w = renderLines rest w" by (simp add: renderLines_def)
    then show ?thesis using a by (simp add: renderMarkdown_lines)
  qed
  show ?thesis using 1 2 3 4 by blast
qed

theorem spacers_collapse_witness:
  "renderMarkdown (js ''\<newline>\<newline>a\<newline>\<newline>\<newline>b'') 80 =
     Inr (Some [Paragraph (js ''a''), Spacer, Paragraph (js ''b'')]) \<and>
   hd [Paragraph (js ''a''), Spacer, Paragraph (js ''b'')] \<noteq> Spacer \<and>
   processLine 80 [] None (appendBlock (Paragraph (js ''a'')) initialState) =
     Inr ((appendBlock (Paragraph (js ''a'')) initialState)
            \<lparr>blocks := [Paragraph (js ''a''), Spacer], previousLineWasEmpty := True\<rparr>) \<and>
   \<not> previousLineWasEmpty (appendBlock (Paragraph (js ''a'')) initialState) \<and>
   splitLines (js ''\<newline>\<newline>a\<newline>\<newline>\<newline>b'') = [[], []] @ [js ''a'', [], [], js ''b''] \<and>
   renderLines [js ''a'', [], [], js ''b''] 80 =
     Inr [Paragraph (js ''a''), Spacer, Paragraph (js ''b'')]"
proof -
  let ?text = "js ''\<newline>\<newline>a\<newline>\<newline>\<newline>b''"
  let ?st = "appendBlock (Paragraph (js ''a'')) initialState"
  let ?st' = "?st\<lparr>blocks := [Paragraph (js ''a''), Spacer], previousLineWasEmpty := True\<rparr>"
  have r: "renderMarkdown ?text 80 = Inr (Some [Paragraph (js ''a''), Spacer, Paragraph (js ''b'')])"
    by (simp add: eval_defs)
  have p: "processLine 80 [] None ?st = Inr ?st'"
    by (simp add: eval_defs)
  have s: "?text \<noteq> [] \<and> splitLines ?text = [[], []] @ [js ''a'', [], [], js ''b''] \<and>
           (\<forall>b\<in>set [[], []]. trim b = [])"
    by (simp add: eval_defs)
  from spacers_collapse [where input = "?text" and w = 80 and bs = "[Paragraph (js ''a''), Spacer, Paragraph (js ''b'')]"
      and l = "[]" and n = None and st = "?st" and st' = "?st'"
      and blanks = "[[], []]" and rest = "[js ''a'', [], [], js ''b'']"] r p s
  show ?thesis by (simp add: appendBlock_def split: sum.splits)
qed


text \<open>
  Claim C3. The fence of a fence line is a run of at least three backticks or three
  tildes. Inside a code block opened with the fence \<open>f\<close>, a line closes the block exactly
  when it is a fence line whose fence has the character of \<open>f\<close> and at least its length;
  the closing line emits the buffered lines as one \<open>CodeBlock\<close>, any other line is
  appended to the buffer unchanged. A text made of an opening fence line, interior lines
  none of which closes, and a closing line renders as exactly one \<open>CodeBlock\<close> holding
  the interior lines as they are.
\<close>

theorem fence_roundtrip:
  assumes "codeFence opening = Some (f, lang)"
  shows "3 \<le> length f \<and>
    (f = replicate (length f) (ch CHR ''`'') \<or> f = replicate (length f) (ch CHR ''~'')) \<and>
    (closesFence f l \<longleftrightarrow>
       (\<exists>f' lang'. codeFence l = Some (f', lang') \<and> hd f' = hd f \<and> length f \<le> length f')) \<and>
    (codeBlockActive st \<and> codeBlockFence st = f \<longrightarrow>
       (\<exists>st'. processLine w l n st = Inr st' \<and>
          (codeBlockActive st' \<longleftrightarrow> \<not> closesFence f l) \<and>
          (\<not> codeBlockActive st' \<longrightarrow>
             blocks st' = blocks st @ [CodeBlock (codeBlockLines st) (codeBlockLanguage st) w]) \<and>
          (codeBlockActive st' \<longrightarrow>
             codeBlockLines st' = codeBlockLines st @ [l] \<and> blocks st' = blocks st))) \<and>
    (splitLines input = opening # interior @ [closing] \<and>
     (\<forall>x\<in>set interior. \<not> closesFence f x) \<and> closesFence f closing \<longrightarrow>
       renderMarkdown input w =
         Inr (Some [CodeBlock interior (if lang = [] then None else Some lang) w]))"
proof -
  note 1 = fence_shape [OF assms]
  note 2 = closesFence_ex [OF assms, of l]
  have 3: "\<exists>st'. processLine w l n st = Inr st' \<and>
          (codeBlockActive st' \<longleftrightarrow> \<not> closesFence f l) \<and>
          (\<not> codeBlockActive st' \<longrightarrow>
             blocks st' = blocks st @ [CodeBlock (codeBlockLines st) (codeBlockLanguage st) w]) \<and>
          (codeBlockActive st' \<longrightarrow>
             codeBlockLines st' = codeBlockLines st @ [l] \<and> blocks st' = blocks st)"
    if a: "codeBlockActive st \<and> codeBlockFence st = f"
  proof -
    have "processLine w l n st = Inr (insideCodeBlock w l st)"
      using a by (simp add: processLine_inside)
    then show ?thesis using a insideCodeBlock_effect [where w = w and l = l and st = st] by auto
  qed
  have 4: "renderMarkdown input w =
         Inr (Some [CodeBlock interior (if lang = [] then None else Some lang) w])"
    if a: "splitLines input = opening # interior @ [closing] \<and>
     (\<forall>x\<in>set interior. \<not> closesFence f x) \<and> closesFence f closing"
  proof -
    have "input \<noteq> []" using a by auto
    moreover have "renderLines (splitLines input) w =
        Inr [CodeBlock interior (if lang = [] then None else Some lang) w]"
      using a fence_roundtrip_lines [OF assms, of interior closing w] by simp
    ultimately show ?thesis by (simp add: renderMarkdown_lines)
  qed
  show ?thesis using 1 2 3 4 by blast
qed

theorem fence_roundtrip_witness:
  "codeFence (js ''```js'') = Some (js ''```'', js ''js'') \<and>
   closesFence (js ''```'') (js ''````'') \<and>
   \<not> closesFence (js ''```'') (js ''~~~'') \<and>
   \<not> closesFence (js ''```'') (js ''**not bold**'') \<and>
   renderMarkdown (js ''```js\<newline>**not bold**\<newline>~~~\<newline>````'') 80 =
     Inr (Some [CodeBlock [js ''**not bold**'', js ''~~~''] (Some (js ''js'')) 80]) \<and>
   (\<exists>st'. processLine 80 (js ''````'') None
            (initialState\<lparr>codeBlockActive := True, codeBlockFence := js ''```'',
               codeBlockLines := [js ''x'']\<rparr>) = Inr st' \<and>
          \<not> codeBlockActive st' \<and> blocks st' = [CodeBlock [js ''x''] None 80])"
proof -
  let ?st = "initialState\<lparr>codeBlockActive := True, codeBlockFence := js ''```'',
               codeBlockLines := [js ''x'']\<rparr>"
  have o: "codeFence (js ''```js'') = Some (js ''```'', js ''js'')" by (simp add: eval_defs)
  have c: "closesFence (js ''```'') (js ''````'')" by (simp add: eval_defs)
  have n1: "\<not> closesFence (js ''```'') (js ''~~~'')" by (simp add: eval_defs)
  have n2: "\<not> closesFence (js ''```'') (js ''**not bold**'')" by (simp add: eval_defs)
  have s: "splitLines (js ''```js\<newline>**not bold**\<newline>~~~\<newline>````'') =
             js ''```js'' # [js ''**not bold**'', js ''~~~''] @ [js ''````'']"
    by (simp add: eval_defs)
  have a: "codeBlockActive ?st \<and> codeBlockFence ?st = js ''```''" by simp
  have st: "blocks ?st = []" "codeBlockLines ?st = [js ''x'']" "codeBlockLanguage ?st = None"
    by (simp_all add: initialState_def)
  have i: "\<forall>x\<in>set [js ''**not bold**'', js ''~~~'']. \<not> closesFence (js ''```'') x"
    using n1 n2 by simp
  note T = fence_roundtrip [OF o, where l = "js ''````''" and st = "?st" and w = 80 and n = None
      and input = "js ''```js\<newline>**not bold**\<newline>~~~\<newline>````''"
      and interior = "[js ''**not bold**'', js ''~~~'']" and closing = "js ''````''"]
  from T a obtain st' where p: "processLine 80 (js ''````'') None ?st = Inr st'"
    and q: "codeBlockActive st' \<longleftrightarrow> \<not> closesFence (js ''```'') (js ''````'')"
    and b: "\<not> codeBlockActive st' \<longrightarrow>
             blocks st' = blocks ?st @ [CodeBlock (codeBlockLines ?st) (codeBlockLanguage ?st) 80]"
    by blast
  from q c have na: "\<not> codeBlockActive st'" by simp
  with b st have bl: "blocks st' = [CodeBlock [js ''x''] None 80]" by simp
  from T s i c have "renderMarkdown (js ''```js\<newline>**not bold**\<newline>~~~\<newline>````'') 80 =
      Inr (Some [CodeBlock [js ''**not bold**'', js ''~~~'']
                   (if js ''js'' = [] then None else Some (js ''js'')) 80])"
    by blast
  then have r: "renderMarkdown (js ''```js\<newline>**not bold**\<newline>~~~\<newline>````'') 80 =
      Inr (Some [CodeBlock [js ''**not bold**'', js ''~~~''] (Some (js ''js'')) 80])"
    by (simp add: js_def)
  from p na bl have "\<exists>st'. processLine 80 (js ''````'') None ?st = Inr st' \<and>
          \<not> codeBlockActive st' \<and> blocks st' = [CodeBlock [js ''x''] None 80]"
    by blast
  with o c n1 n2 r show ?thesis by blast
qed


text \<open>
  Claim C8. The three lines \<open>| A | B |\<close>, \<open>| - | - |\<close>, \<open>| 1 | 2 |\<close> render as
  one \<open>Table\<close> with headers A, B and the row 1, 2. The line \<open>| A | B |\<close> at the start
  of a text whose next line is missing or is no separator is pushed as a \<open>Paragraph\<close>
  with the text of the line (unless a later horizontal rule throws, which needs a width
  below 4). A header row with its separator line, followed by separator lines only,
  renders as no block at all; more generally a table without data rows adds no
  \<open>Table\<close>, neither at the end of the text nor when a line closes it.
\<close>

theorem table_recognition:
  "renderMarkdown (js ''| A | B |\<newline>| - | - |\<newline>| 1 | 2 |'') w =
     Inr (Some [Table [js ''A'', js ''B''] [[js ''1'', js ''2'']] w]) \<and>
   (splitLines input = js ''| A | B |'' # rest \<and> (rest = [] \<or> \<not> tableSeparator (hd rest)) \<longrightarrow>
      (case renderMarkdown input w of
         Inl e \<Rightarrow> w < 4
       | Inr r \<Rightarrow> \<exists>bs. r = Some (Paragraph (js ''| A | B |'') # bs))) \<and>
   (splitLines input' = hdr # sep # seps \<and> tableRow hdr \<noteq> None \<and> tableSeparator sep \<and>
    (\<forall>x\<in>set seps. tableSeparator x) \<longrightarrow> renderMarkdown input' w = Inr (Some [])) \<and>
   (tableDataRows st = [] \<and> \<not> codeBlockActive st \<longrightarrow>
      blocks (flushOpen w st) = blocks st \<and>
      blocks (tableEnd w l st) = blocks st @ (if trim l \<noteq> [] then [Paragraph l] else []))"
proof -
  have 1: "renderMarkdown (js ''| A | B |\<newline>| - | - |\<newline>| 1 | 2 |'') w =
     Inr (Some [Table [js ''A'', js ''B''] [[js ''1'', js ''2'']] w])"
    by (simp add: eval_defs)
  have row: "tableRow (js ''| A | B |'') = Some (js '' A | B '')" by (simp add: eval_defs)
  have 2: "case renderMarkdown input w of
         Inl e \<Rightarrow> w < 4
       | Inr r \<Rightarrow> \<exists>bs. r = Some (Paragraph (js ''| A | B |'') # bs)"
    if a: "splitLines input = js ''| A | B |'' # rest \<and> (rest = [] \<or> \<not> tableSeparator (hd rest))"
  proof -
    have ne: "input \<noteq> []" using a by (auto simp: js_def)
    show ?thesis
    proof (cases "renderLines (splitLines input) w")
      case (Inl e)
      then have "w < 4" by (rule renderLines_error)
      then show ?thesis using Inl ne by (simp add: renderMarkdown_lines)
    next
      case (Inr bs)
      then have "renderLines (js ''| A | B |'' # rest) w = Inr bs" using a by simp
      from row_without_separator [OF row _ this] a
      obtain bs' where "bs = Paragraph (js ''| A | B |'') # bs'" by blast
      then show ?thesis using Inr ne by (simp add: renderMarkdown_lines)
    qed
  qed
  have 3: "renderMarkdown input' w = Inr (Some [])"
    if a: "splitLines input' = hdr # sep # seps \<and> tableRow hdr \<noteq> None \<and> tableSeparator sep \<and>
    (\<forall>x\<in>set seps. tableSeparator x)"
  proof -
    have ne: "input' \<noteq> []" using a by auto
    from a obtain g where g: "tableRow hdr = Some g" by auto
    have "renderLines (hdr # sep # seps) w = Inr []"
      by (rule header_without_rows [OF g]) (use a in simp_all)
    then show ?thesis using a ne by (simp add: renderMarkdown_lines)
  qed
  note 4 = zero_rows_no_table [of st w] zero_rows_no_table(2) [of st w l]
  show ?thesis using 1 2 3 4 by blast
qed

theorem table_recognition_witness:
  "renderMarkdown (js ''| A | B |\<newline>| - | - |\<newline>| 1 | 2 |'') 80 =
     Inr (Some [Table [js ''A'', js ''B''] [[js ''1'', js ''2'']] 80]) \<and>
   \<not> tableSeparator (js ''| 1 | 2 |'') \<and>
   (\<exists>bs. renderMarkdown (js ''| A | B |\<newline>| 1 | 2 |'') 80 =
      Inr (Some (Paragraph (js ''| A | B |'') # bs))) \<and>
   (\<exists>bs. renderMarkdown (js ''| A | B |'') 80 = Inr (Some (Paragraph (js ''| A | B |'') # bs))) \<and>
   tableRow (js ''| A | B |'') \<noteq> None \<and> tableSeparator (js ''| - | - |'') \<and>
   renderMarkdown (js ''| A | B |\<newline>| - | - |\<newline>|---|---|'') 80 = Inr (Some []) \<and>
   blocks (tableEnd 80 (js ''text'')
      (initialState\<lparr>tableActive := True, tableHeaderCells := [js ''A'', js ''B'']\<rparr>)) =
     [Paragraph (js ''text'')]"
proof -
  let ?st = "initialState\<lparr>tableActive := True, tableHeaderCells := [js ''A'', js ''B'']\<rparr>"
  have s1: "splitLines (js ''| A | B |\<newline>| 1 | 2 |'') = js ''| A | B |'' # [js ''| 1 | 2 |'']"
    by (simp add: eval_defs)
  have s2: "splitLines (js ''| A | B |'') = js ''| A | B |'' # []" by (simp add: eval_defs)
  have s3: "splitLines (js ''| A | B |\<newline>| - | - |\<newline>|---|---|'') =
       js ''| A | B |'' # js ''| - | - |'' # [js ''|---|---|'']" by (simp add: eval_defs)
  have ns: "\<not> tableSeparator (js ''| 1 | 2 |'')" by (simp add: eval_defs)
  have row: "tableRow (js ''| A | B |'') \<noteq> None" by (simp add: eval_defs)
  have sep: "tableSeparator (js ''| - | - |'')" "tableSeparator (js ''|---|---|'')"
    by (simp_all add: eval_defs)
  have st: "tableDataRows ?st = [] \<and> \<not> codeBlockActive ?st" "blocks ?st = []"
    "trim (js ''text'') \<noteq> []"
    by (simp_all add: eval_defs)
  note T1 = table_recognition [where w = 80 and input = "js ''| A | B |\<newline>| 1 | 2 |''"
      and rest = "[js ''| 1 | 2 |'']"
      and input' = "js ''| A | B |\<newline>| - | - |\<newline>|---|---|''"
      and hdr = "js ''| A | B |''" and sep = "js ''| - | - |''" and seps = "[js ''|---|---|'']"
      and st = "?st" and l = "js ''text''"]
  note T2 = table_recognition [where w = 80 and input = "js ''| A | B |''" and rest = "[]"]
  from T1 have a: "renderMarkdown (js ''| A | B |\<newline>| - | - |\<newline>| 1 | 2 |'') 80 =
     Inr (Some [Table [js ''A'', js ''B''] [[js ''1'', js ''2'']] 80])" by blast
  from T1 s1 ns have "case renderMarkdown (js ''| A | B |\<newline>| 1 | 2 |'') 80 of
         Inl e \<Rightarrow> (80::int) < 4
       | Inr r \<Rightarrow> \<exists>bs. r = Some (Paragraph (js ''| A | B |'') # bs)" by simp
  then have b: "\<exists>bs. renderMarkdown (js ''| A | B |\<newline>| 1 | 2 |'') 80 =
      Inr (Some (Paragraph (js ''| A | B |'') # bs))"
    by (cases "renderMarkdown (js ''| A | B |\<newline>| 1 | 2 |'') 80") auto
  from T2 s2 have "case renderMarkdown (js ''| A | B |'') 80 of
         Inl e \<Rightarrow> (80::int) < 4
       | Inr r \<Rightarrow> \<exists>bs. r = Some (Paragraph (js ''| A | B |'') # bs)" by simp
  then have c: "\<exists>bs. renderMarkdown (js ''| A | B |'') 80 =
      Inr (Some (Paragraph (js ''| A | B |'') # bs))"
    by (cases "renderMarkdown (js ''| A | B |'') 80") auto
  from T1 s3 row sep have d: "renderMarkdown (js ''| A | B |\<newline>| - | - |\<newline>|---|---|'') 80 = Inr (Some [])"
    by simp
  from T1 st have e: "blocks (tableEnd 80 (js ''text'') ?st) = [Paragraph (js ''text'')]"
    by simp
  from a ns b c row sep(1) d e show ?thesis by blast
qed





text \<open>
  Claim C5. The text of the end-to-end example, at width 80, renders as a level-1 header
  with the text \<open>Title\<close>, a spacer, a paragraph, a spacer and the table with headers
  A, B and the row 1, 2; the text of the paragraph is tokenized into plain \<open>Some \<close>,
  bold \<open>bold\<close>, plain \<open> and \<close>, italic \<open>em\<close> and plain \<open> text.\<close>.
\<close>

theorem end_to_end_example:
  "renderMarkdown
     (js ''# Title\<newline>\<newline>Some **bold** and _em_ text.\<newline>\<newline>| A | B |\<newline>| - | - |\<newline>| 1 | 2 |\<newline>'') 80 =
     Inr (Some [Header 1 (js ''Title''), Spacer, Paragraph (js ''Some **bold** and _em_ text.''),
                Spacer, Table [js ''A'', js ''B''] [[js ''1'', js ''2'']] 80]) \<and>
   ProcessInlineText (js ''Some **bold** and _em_ text.'') =
     [Plain (js ''Some ''), Bold (js ''bold''), Plain (js '' and ''), Italic (js ''em''),
      Plain (js '' text.'')] \<and>
   ProcessInlineText (js ''Title'') = [Plain (js ''Title'')]"
proof -
  have 1: "renderMarkdown
     (js ''# Title\<newline>\<newline>Some **bold** and _em_ text.\<newline>\<newline>| A | B |\<newline>| - | - |\<newline>| 1 | 2 |\<newline>'') 80 =
     Inr (Some [Header 1 (js ''Title''), Spacer, Paragraph (js ''Some **bold** and _em_ text.''),
                Spacer, Table [js ''A'', js ''B''] [[js ''1'', js ''2'']] 80])"
    by (simp add: eval_defs)
  have 2: "ProcessInlineText (js ''Some **bold** and _em_ text.'') =
     [Plain (js ''Some ''), Bold (js ''bold''), Plain (js '' and ''), Italic (js ''em''),
      Plain (js '' text.'')]"
    by (simp add: inline_defs)
  have 3: "ProcessInlineText (js ''Title'') = [Plain (js ''Title'')]"
    by (simp add: inline_defs)
  show ?thesis using 1 2 3 by blast
qed

text \<open>
  Claim C6. A cell whose content is wider than the inner width of its column should be
  shown in at most that width, ellipsis included. \<open>buildCell\<close> cuts the content by code
  units (\<open>substring\<close>) and always appends three dots. A header cell of 50 Hangul
  syllables has display width 100 and asks for a column of 102, in a table that needs
  104 columns; at the width 80 the column gets \<open>floor (102 * (80 / 104)) = 78\<close>, inner
  width 76. The cell is then shown as all 50 syllables followed by the dots, 103 columns
  wide, with no padding. With ASCII only, the cell \<open>abcd\<close> in a column of width 4 (inner
  width 2) is shown as the three dots.
\<close>

theorem cell_text_exceeds_inner_width:
  "widthPerColumn [replicate 50 0xD55C] [[js ''x'']] = [102] \<and>
   totalRequiredWidth [102] = 104 \<and>
   calculateTextWidth (replicate 50 0xD55C) = 100 \<and>
   buildCell (replicate 50 0xD55C) 78 = (replicate 50 0xD55C @ js ''...'', 0) \<and>
   calculateTextWidth (replicate 50 0xD55C @ js ''...'') = 103 \<and>
   buildCell (js ''abcd'') 4 = (js ''...'', 0) \<and>
   calculateTextWidth (js ''...'') = 3"
proof -
  have 1: "calculateTextWidth (replicate 50 0xD55C) = 100"
    using width_hangul_run(2) [of 50] by simp
  have 3: "calculateTextWidth (replicate 50 0xD55C @ js ''...'') = 103"
    using width_hangul_run(1) [of 50] by simp
  have 2: "buildCell (replicate 50 0xD55C) 78 = (replicate 50 0xD55C @ js ''...'', 0)"
    unfolding buildCell_def Let_def 1 by (simp add: 3)
  have 4: "buildCell (js ''abcd'') 4 = (js ''...'', 0)" by (simp add: width_defs)
  have 5: "calculateTextWidth (js ''...'') = 3" by (simp add: width_defs)
  have x: "calculateTextWidth (js ''x'') = 1" by (simp add: width_defs)
  have 6: "widthPerColumn [replicate 50 0xD55C] [[js ''x'']] = [102]"
    by (simp add: widthPerColumn_def 1 x)
  have 7: "totalRequiredWidth [102] = 104" by (simp add: totalRequiredWidth_def)
  show ?thesis using 1 2 3 4 5 6 7 by blast
qed

text \<open>
  Claim C7. The width of a text should be the sum of the widths of its characters once
  the markers are removed and each link is reduced to its label. The last replacement
  of \<open>calculateTextWidth\<close>, \<open>/.*\[(.*?)\]\(.*\)/g\<close>, begins with \<open>.*\<close>, so it
  removes everything on the line before the link with it: \<open>a [b](c)\<close> becomes \<open>b\<close>
  and has width 1, where \<open>a b\<close> has width 3. \<open>ProcessInlineText\<close> shows the same
  text as \<open>a \<close> followed by the link.
\<close>

theorem link_width_drops_preceding_text:
  "plainText (js ''a [b](c)'') = js ''b'' \<and>
   calculateTextWidth (js ''a [b](c)'') = 1 \<and>
   calculateTextWidth (js ''a b'') = 3 \<and>
   plainText (js ''see [docs](http://x) now'') = js ''docs now'' \<and>
   ProcessInlineText (js ''a [b](c)'') = [Plain (js ''a ''), Link (js ''b'') (js ''c'')]"
proof -
  have 1: "plainText (js ''a [b](c)'') = js ''b''" by (simp add: width_defs)
  have 2: "calculateTextWidth (js ''a [b](c)'') = 1" by (simp add: width_defs)
  have 3: "calculateTextWidth (js ''a b'') = 3" by (simp add: width_defs)
  have 4: "plainText (js ''see [docs](http://x) now'') = js ''docs now''" by (simp add: width_defs)
  have 5: "ProcessInlineText (js ''a [b](c)'') = [Plain (js ''a ''), Link (js ''b'') (js ''c'')]"
    by (simp add: inline_defs)
  show ?thesis using 1 2 3 4 5 by blast
qed

end
